theory Spec2Isabelle
  imports Complex_Main "HOL-Library.Multiset" "HOL-Library.Char_ord" "HOL-Library.List_Lexorder"
    "HOL-Library.Log_Nat" "HOL-Library.Sublist"
begin

section \<open>shop\_manager.sorting\_utils\<close>

text \<open>
  The comparison closure \<open>leq\<close> of \<open>_merge\<close>: \<open>a <= b\<close> when \<open>reverse\<close> is
  false, \<open>a >= b\<close> otherwise. Keys are values of a linearly ordered type (numbers,
  timestamps, strings).
\<close>

definition leq :: "bool \<Rightarrow> 'k::linorder \<Rightarrow> 'k \<Rightarrow> bool" where
  "leq reverse a b = (if \<not> reverse then a \<le> b else a \<ge> b)"

text \<open>
  The \<open>while\<close> loop of \<open>_merge\<close> with its two cursors \<open>i\<close>, \<open>j\<close> and the output
  list \<open>out\<close>; the two \<open>extend\<close> calls after the loop are the exit branch.
\<close>

function merge_loop ::
  "('a \<Rightarrow> 'k::linorder) \<Rightarrow> bool \<Rightarrow> 'a list \<Rightarrow> 'a list \<Rightarrow> nat \<Rightarrow> nat \<Rightarrow> 'a list \<Rightarrow> 'a list" where
  "merge_loop key reverse left right i j out =
     (if i < length left \<and> j < length right then
        (if leq reverse (key (left ! i)) (key (right ! j))
         then merge_loop key reverse left right (i + 1) j (out @ [left ! i])
         else merge_loop key reverse left right i (j + 1) (out @ [right ! j]))
      else out @ drop i left @ drop j right)"
  by pat_completeness auto
termination
  by (relation "measure (\<lambda>(key, reverse, left, right, i, j, out).
        (length left - i) + (length right - j))") auto

declare merge_loop.simps [simp del]

definition merge :: "'a list \<Rightarrow> 'a list \<Rightarrow> ('a \<Rightarrow> 'k::linorder) \<Rightarrow> bool \<Rightarrow> 'a list" where
  "merge left right key reverse = merge_loop key reverse left right 0 0 []"

function merge_sort :: "'a list \<Rightarrow> ('a \<Rightarrow> 'k::linorder) \<Rightarrow> bool \<Rightarrow> 'a list" where
  "merge_sort data key reverse =
     (if length data \<le> 1 then data
      else (let mid = length data div 2;
                left = merge_sort (take mid data) key reverse;
                right = merge_sort (drop mid data) key reverse
            in merge left right key reverse))"
  by pat_completeness auto
termination
  by (relation "measure (\<lambda>(data, key, reverse). length data)") auto

declare merge_sort.simps [simp del]

text \<open>The merge of two lists by structural recursion, used to reason about the loop.\<close>

fun merge_rec :: "('a \<Rightarrow> 'k::linorder) \<Rightarrow> bool \<Rightarrow> 'a list \<Rightarrow> 'a list \<Rightarrow> 'a list" where
  "merge_rec key reverse [] ys = ys"
| "merge_rec key reverse (x # xs) [] = x # xs"
| "merge_rec key reverse (x # xs) (y # ys) =
     (if leq reverse (key x) (key y)
      then x # merge_rec key reverse xs (y # ys)
      else y # merge_rec key reverse (x # xs) ys)"

abbreviation ordered_by :: "('a \<Rightarrow> 'k::linorder) \<Rightarrow> bool \<Rightarrow> 'a list \<Rightarrow> bool" where
  "ordered_by key reverse xs \<equiv> sorted_wrt (\<lambda>a b. leq reverse (key a) (key b)) xs"

section \<open>shop\_manager.models\<close>

datatype error = ValidationError | IntegrityError

definition ebind :: "error + 'a \<Rightarrow> ('a \<Rightarrow> error + 'b) \<Rightarrow> error + 'b" where
  "ebind m f = (case m of Inl e \<Rightarrow> Inl e | Inr x \<Rightarrow> f x)"

subsection \<open>Strings\<close>

text \<open>
  A Python \<open>str\<close> is modelled by a \<open>string\<close> with one \<open>char\<close> per code point, for
  code points below 256. \<open>isspace\<close> lists the code points in that range for which
  \<open>str.isspace\<close> holds; \<open>str.strip\<close> and the class \<open>\s\<close> of \<open>re\<close> both use it.
\<close>

definition isspace :: "char \<Rightarrow> bool" where
  "isspace c = (c \<in> set [CHR 0x09, CHR 0x0A, CHR 0x0B, CHR 0x0C, CHR 0x0D,
                          CHR 0x1C, CHR 0x1D, CHR 0x1E, CHR 0x1F, CHR 0x20, CHR 0x85, CHR 0xA0])"

definition strip :: "string \<Rightarrow> string" where
  "strip s = rev (dropWhile isspace (rev (dropWhile isspace s)))"

subsection \<open>Regular expressions\<close>

text \<open>
  The fragment of \<open>re\<close> that \<open>EMAIL_RE\<close> and \<open>PHONE_RE\<close> use, matched by
  derivatives. \<open>re_match\<close> is \<open>pattern.match(s)\<close> for a pattern of the shape
  \<open>^r$\<close>: the whole of \<open>s\<close> is in the language of \<open>r\<close>, or \<open>s\<close> ends with a newline
  and the rest is (\<open>$\<close> also matches just before a final newline).
\<close>

datatype regex =
    Nothing
  | Eps
  | Cls "char \<Rightarrow> bool"
  | Alt regex regex
  | Seq regex regex
  | Star regex

fun nullable :: "regex \<Rightarrow> bool" where
  "nullable Nothing = False"
| "nullable Eps = True"
| "nullable (Cls P) = False"
| "nullable (Alt r s) = (nullable r \<or> nullable s)"
| "nullable (Seq r s) = (nullable r \<and> nullable s)"
| "nullable (Star r) = True"

fun deriv :: "char \<Rightarrow> regex \<Rightarrow> regex" where
  "deriv c Nothing = Nothing"
| "deriv c Eps = Nothing"
| "deriv c (Cls P) = (if P c then Eps else Nothing)"
| "deriv c (Alt r s) = Alt (deriv c r) (deriv c s)"
| "deriv c (Seq r s) =
     (if nullable r then Alt (Seq (deriv c r) s) (deriv c s) else Seq (deriv c r) s)"
| "deriv c (Star r) = Seq (deriv c r) (Star r)"

fun fullmatch :: "regex \<Rightarrow> string \<Rightarrow> bool" where
  "fullmatch r [] = nullable r"
| "fullmatch r (c # cs) = fullmatch (deriv c r) cs"

definition re_match :: "regex \<Rightarrow> string \<Rightarrow> bool" where
  "re_match r s = (fullmatch r s \<or> (s \<noteq> [] \<and> last s = CHR 0x0A \<and> fullmatch r (butlast s)))"

definition Plus :: "regex \<Rightarrow> regex" where
  "Plus r = Seq r (Star r)"

definition Opt :: "regex \<Rightarrow> regex" where
  "Opt r = Alt Eps r"

fun AtLeast :: "nat \<Rightarrow> regex \<Rightarrow> regex" where
  "AtLeast 0 r = Star r"
| "AtLeast (Suc n) r = Seq r (AtLeast n r)"

definition Lit :: "char \<Rightarrow> regex" where
  "Lit c = Cls (\<lambda>d. d = c)"

definition letter :: "char \<Rightarrow> bool" where
  "letter c = (c \<in> set ''ABCDEFGHIJKLMNOPQRSTUVWXYZabcdefghijklmnopqrstuvwxyz'')"

definition digit :: "char \<Rightarrow> bool" where
  "digit c = (c \<in> set ''0123456789'')"

text \<open>\<^verbatim>\<open>^[A-Za-z0-9._%+-]+@[A-Za-z0-9.-]+\.[A-Za-z]{2,}$\<close>\<close>

definition EMAIL_RE :: regex where
  "EMAIL_RE =
     Seq (Plus (Cls (\<lambda>c. letter c \<or> digit c \<or> c \<in> set ''._%+-'')))
    (Seq (Lit CHR ''@'')
    (Seq (Plus (Cls (\<lambda>c. letter c \<or> digit c \<or> c \<in> set ''.-'')))
    (Seq (Lit CHR ''.'')
         (AtLeast 2 (Cls letter)))))"

text \<open>\<^verbatim>\<open>^\+?[0-9][0-9\s\-\(\)]{7,}$\<close>\<close>

definition PHONE_RE :: regex where
  "PHONE_RE =
     Seq (Opt (Lit CHR ''+''))
    (Seq (Cls digit)
         (AtLeast 7 (Cls (\<lambda>c. digit c \<or> isspace c \<or> c \<in> set ''-()''))))"

subsection \<open>Person and Customer\<close>

text \<open>
  The dataclass \<open>Customer(Person(BaseEntity))\<close>: the fields \<open>id\<close>, \<open>_name\<close>,
  \<open>_email\<close>, \<open>_phone\<close>. The generated \<open>__init__\<close> stores its arguments and calls
  \<open>__post_init__\<close>; each property setter either raises or returns the updated object.
\<close>

record customer =
  c_id :: "int option"
  c_name :: string
  c_email :: string
  c_phone :: string

definition name_setter :: "string \<Rightarrow> customer \<Rightarrow> error + customer" where
  "name_setter v self =
     (let v = strip v in
      if v = [] then Inl ValidationError else Inr (self\<lparr>c_name := v\<rparr>))"

definition email_setter :: "string \<Rightarrow> customer \<Rightarrow> error + customer" where
  "email_setter v self =
     (let v = strip v in
      if v \<noteq> [] \<and> \<not> re_match EMAIL_RE v then Inl ValidationError
      else Inr (self\<lparr>c_email := v\<rparr>))"

definition phone_setter :: "string \<Rightarrow> customer \<Rightarrow> error + customer" where
  "phone_setter v self =
     (let v = strip v in
      if v \<noteq> [] \<and> \<not> re_match PHONE_RE v then Inl ValidationError
      else Inr (self\<lparr>c_phone := v\<rparr>))"

definition Person_post_init :: "customer \<Rightarrow> error + customer" where
  "Person_post_init self =
     (if c_name self \<noteq> [] then name_setter (c_name self) self else Inr self)"

definition Customer_post_init :: "customer \<Rightarrow> error + customer" where
  "Customer_post_init self =
     ebind (Person_post_init self) (\<lambda>self.
     ebind (if c_email self \<noteq> [] then email_setter (c_email self) self else Inr self) (\<lambda>self.
     if c_phone self \<noteq> [] then phone_setter (c_phone self) self else Inr self))"

definition Customer :: "int option \<Rightarrow> string \<Rightarrow> string \<Rightarrow> string \<Rightarrow> error + customer" where
  "Customer i n e p = Customer_post_init \<lparr>c_id = i, c_name = n, c_email = e, c_phone = p\<rparr>"

subsection \<open>Floating-point numbers\<close>

text \<open>
  A Python \<open>float\<close> and an SQLite \<open>REAL\<close> are IEEE binary64 numbers. Such a number
  is represented by the rational it denotes, and \<open>fl x\<close> is the binary64 number
  nearest to \<open>x\<close> (53 significant bits, a tie going to the even significand). The
  exponent is not bounded: infinities, NaN, subnormal numbers and the sign of zero are
  not modelled. Every operation reads its arguments through \<open>fl\<close>, so a rational
  that is not a binary64 number stands for the nearest one, as the literal \<open>0.1\<close>
  does.
\<close>

definition pow2 :: "int \<Rightarrow> rat" where
  "pow2 k = (if 0 \<le> k then 2 ^ nat k else 1 / 2 ^ nat (- k))"

text \<open>\<open>ilog2 x\<close> is the integer \<open>e\<close> with \<open>2^e \<le> x < 2^(e+1)\<close>, for \<open>x > 0\<close>.\<close>

definition ilog2 :: "rat \<Rightarrow> int" where
  "ilog2 x = (let d = bitlen (fst (quotient_of x)) - bitlen (snd (quotient_of x))
              in if pow2 d \<le> x then d else d - 1)"

definition round_half_even :: "rat \<Rightarrow> int" where
  "round_half_even x =
     (let f = \<lfloor>x\<rfloor>; d = x - of_int f in
      if d < 1 / 2 then f
      else if 1 / 2 < d then f + 1
      else if even f then f else f + 1)"

definition fl :: "rat \<Rightarrow> rat" where
  "fl x = (if x = 0 then 0
           else let u = pow2 (ilog2 \<bar>x\<bar> - 52) in of_int (round_half_even (x / u)) * u)"

definition fmul :: "rat \<Rightarrow> rat \<Rightarrow> rat" where
  "fmul a b = fl (fl a * fl b)"

definition fadd :: "rat \<Rightarrow> rat \<Rightarrow> rat" where
  "fadd a b = fl (fl a + fl b)"

definition fsub :: "rat \<Rightarrow> rat \<Rightarrow> rat" where
  "fsub a b = fl (fl a - fl b)"

text \<open>
  \<open>round(x, 2)\<close> of CPython: the exact value of \<open>x\<close> is rounded to two decimals, a
  tie going to the even digit, and the decimal result is read back as a float.
\<close>

definition round2 :: "rat \<Rightarrow> rat" where
  "round2 x = fl (of_int (round_half_even (fl x * 100)) / 100)"

text \<open>
  The built-in \<open>sum\<close> of Python up to version 3.11: the items are added from left to
  right, starting from the integer 0.
\<close>

definition py_sum :: "rat list \<Rightarrow> rat" where
  "py_sum xs = foldl fadd 0 xs"

text \<open>
  The aggregate \<open>SUM\<close> of SQLite from version 3.43 on, over \<open>REAL\<close> values: the
  Kahan-Babuska-Neumaier summation of \<open>sumStep\<close> and \<open>sumFinalize\<close>, with the running
  sum and the error term.
\<close>

definition kbn_step :: "rat \<times> rat \<Rightarrow> rat \<Rightarrow> rat \<times> rat" where
  "kbn_step acc r =
     (let s = fst acc; t = fadd s r
      in (t, fadd (snd acc)
               (if \<bar>fl s\<bar> > \<bar>fl r\<bar> then fadd (fsub s t) r else fadd (fsub r t) s)))"

definition sql_sum :: "rat list \<Rightarrow> rat" where
  "sql_sum rs = (let acc = foldl kbn_step (0, 0) rs in fadd (fst acc) (snd acc))"

subsection \<open>Product\<close>

record product =
  p_id :: "int option"
  p_title :: string
  p_price :: rat

definition title_setter :: "string \<Rightarrow> product \<Rightarrow> error + product" where
  "title_setter v self =
     (let v = strip v in
      if v = [] then Inl ValidationError else Inr (self\<lparr>p_title := v\<rparr>))"

definition price_setter :: "rat \<Rightarrow> product \<Rightarrow> error + product" where
  "price_setter v self =
     (if v < 0 then Inl ValidationError else Inr (self\<lparr>p_price := round2 v\<rparr>))"

definition Product_post_init :: "product \<Rightarrow> error + product" where
  "Product_post_init self =
     ebind (if p_title self \<noteq> [] then title_setter (p_title self) self else Inr self) (\<lambda>self.
     price_setter (p_price self) self)"

definition Product :: "int option \<Rightarrow> string \<Rightarrow> rat \<Rightarrow> error + product" where
  "Product i t pr = Product_post_init \<lparr>p_id = i, p_title = t, p_price = pr\<rparr>"

subsection \<open>OrderItem and Order\<close>

text \<open>
  A \<open>datetime\<close> is a count of microseconds; the text that
  \<open>isoformat(timespec="seconds")\<close> writes is represented by the whole seconds it
  shows (type \<open>isotext\<close>), which \<open>fromisoformat\<close> reads back.
\<close>

type_synonym datetime = int
type_synonym isotext = int

definition isoformat_seconds :: "datetime \<Rightarrow> isotext" where
  "isoformat_seconds d = d div 1000000"

definition fromisoformat :: "isotext \<Rightarrow> datetime" where
  "fromisoformat t = t * 1000000"

record order_item =
  oi_id :: "int option"
  product_id :: int
  product_title :: string
  unit_price :: rat
  quantity :: int

record order =
  o_id :: "int option"
  customer_id :: int
  created_at :: datetime
  items :: "order_item list"

definition line_total :: "order_item \<Rightarrow> rat" where
  "line_total self = round2 (fmul (unit_price self) (of_int (quantity self)))"

definition total :: "order \<Rightarrow> rat" where
  "total self = round2 (py_sum (map line_total (items self)))"

definition add_item :: "order \<Rightarrow> order_item \<Rightarrow> error + order" where
  "add_item self item =
     (if quantity item < 1 then Inl ValidationError
      else Inr (self\<lparr>items := items self @ [item]\<rparr>))"

section \<open>shop\_manager.db\<close>

subsection \<open>The store\<close>

text \<open>
  The four tables of the schema, each a list of rows in the order of insertion, and the
  counters that \<open>AUTOINCREMENT\<close> keeps in \<open>sqlite_sequence\<close>. The columns \<open>email\<close> and
  \<open>phone\<close> may hold \<open>NULL\<close>. Identifiers are integers; the 64-bit limit of a rowid is
  not modelled.
\<close>

record customer_row =
  cr_id :: int
  cr_name :: string
  cr_email :: "string option"
  cr_phone :: "string option"

record product_row =
  pr_id :: int
  pr_title :: string
  pr_price :: rat

record order_row =
  or_id :: int
  or_customer_id :: int
  or_created_at :: isotext

record item_row =
  ir_id :: int
  ir_order_id :: int
  ir_product_id :: int
  ir_unit_price :: rat
  ir_quantity :: int

record tables =
  customers :: "customer_row list"
  products :: "product_row list"
  orders :: "order_row list"
  order_items :: "item_row list"
  seq_customers :: int
  seq_products :: int
  seq_orders :: int
  seq_order_items :: int

definition empty_tables :: tables where
  "empty_tables = \<lparr>customers = [], products = [], orders = [], order_items = [],
     seq_customers = 0, seq_products = 0, seq_orders = 0, seq_order_items = 0\<rparr>"

text \<open>The statements that the module sends to the connection, with their parameters.\<close>

datatype sql =
    INSERT_customers string "string option" "string option"
  | INSERT_products string rat
  | INSERT_orders int isotext
  | INSERT_order_items int int rat int
  | DELETE_order_items
  | DELETE_orders
  | DELETE_products
  | DELETE_customers

text \<open>
  A rowid of an \<open>AUTOINCREMENT\<close> table is one more than the largest rowid the table has
  ever held.
\<close>

definition next_rowid :: "int \<Rightarrow> int list \<Rightarrow> int" where
  "next_rowid s ids = max s (fold max ids 0) + 1"

text \<open>
  One statement on the tables, with \<open>PRAGMA foreign_keys = ON\<close>: an insert whose parent
  row is missing raises \<open>IntegrityError\<close> and changes nothing; deleting customers or
  orders cascades; deleting a product that an item references is refused. The result of
  an insert is \<open>lastrowid\<close>.
\<close>

fun run :: "sql \<Rightarrow> tables \<Rightarrow> error + (int \<times> tables)" where
  "run (INSERT_customers n e p) t =
     (let rid = next_rowid (seq_customers t) (map cr_id (customers t)) in
      Inr (rid, t\<lparr>customers := customers t @
                     [\<lparr>cr_id = rid, cr_name = n, cr_email = e, cr_phone = p\<rparr>],
                   seq_customers := rid\<rparr>))"
| "run (INSERT_products ti pr) t =
     (let rid = next_rowid (seq_products t) (map pr_id (products t)) in
      Inr (rid, t\<lparr>products := products t @ [\<lparr>pr_id = rid, pr_title = ti, pr_price = pr\<rparr>],
                   seq_products := rid\<rparr>))"
| "run (INSERT_orders cid ts) t =
     (if cid \<notin> set (map cr_id (customers t)) then Inl IntegrityError
      else let rid = next_rowid (seq_orders t) (map or_id (orders t)) in
      Inr (rid, t\<lparr>orders := orders t @
                     [\<lparr>or_id = rid, or_customer_id = cid, or_created_at = ts\<rparr>],
                   seq_orders := rid\<rparr>))"
| "run (INSERT_order_items oid pid up q) t =
     (if oid \<notin> set (map or_id (orders t)) \<or> pid \<notin> set (map pr_id (products t))
      then Inl IntegrityError
      else let rid = next_rowid (seq_order_items t) (map ir_id (order_items t)) in
      Inr (rid, t\<lparr>order_items := order_items t @
                     [\<lparr>ir_id = rid, ir_order_id = oid, ir_product_id = pid,
                       ir_unit_price = up, ir_quantity = q\<rparr>],
                   seq_order_items := rid\<rparr>))"
| "run DELETE_order_items t = Inr (0, t\<lparr>order_items := []\<rparr>)"
| "run DELETE_orders t =
     Inr (0, t\<lparr>orders := [],
               order_items := filter (\<lambda>i. ir_order_id i \<notin> set (map or_id (orders t)))
                                (order_items t)\<rparr>)"
| "run DELETE_products t =
     (if \<exists>i \<in> set (order_items t). ir_product_id i \<in> set (map pr_id (products t))
      then Inl IntegrityError
      else Inr (0, t\<lparr>products := []\<rparr>))"
| "run DELETE_customers t =
     (let gone = filter (\<lambda>r. or_customer_id r \<in> set (map cr_id (customers t))) (orders t) in
      Inr (0, t\<lparr>customers := [],
                orders := filter (\<lambda>r. or_customer_id r \<notin> set (map cr_id (customers t)))
                            (orders t),
                order_items := filter (\<lambda>i. ir_order_id i \<notin> set (map or_id gone))
                                 (order_items t)\<rparr>))"

text \<open>
  The \<open>Database\<close> object with its open connection. \<open>conn\<close> is what the connection
  reads and writes: the committed tables and the changes of the pending transaction.
  \<open>durable\<close> is what has been committed. \<open>statements\<close> records, in order, every
  statement sent to the connection.
\<close>

record database =
  durable :: tables
  conn :: tables
  statements :: "sql list"

definition connect :: database where
  "connect = \<lparr>durable = empty_tables, conn = empty_tables, statements = []\<rparr>"

text \<open>
  \<open>conn.execute\<close>: the statement is applied to the connection's tables; a statement
  that raises leaves them as they were, and the transaction stays open.
\<close>

definition execute :: "sql \<Rightarrow> database \<Rightarrow> (error + int) \<times> database" where
  "execute s db =
     (case run s (conn db) of
        Inl e \<Rightarrow> (Inl e, db\<lparr>statements := statements db @ [s]\<rparr>)
      | Inr (rid, t) \<Rightarrow> (Inr rid, db\<lparr>conn := t, statements := statements db @ [s]\<rparr>))"

definition commit :: "database \<Rightarrow> database" where
  "commit db = db\<lparr>durable := conn db\<rparr>"

text \<open>
  \<open>cursor.executescript\<close>: commits the pending transaction, then runs the statements
  one by one, each committed as it completes, stopping at the first that raises.
\<close>

fun script_loop :: "sql list \<Rightarrow> database \<Rightarrow> (error + unit) \<times> database" where
  "script_loop [] db = (Inr (), db)"
| "script_loop (s # ss) db =
     (case execute s db of
        (Inl e, db') \<Rightarrow> (Inl e, db')
      | (Inr _, db') \<Rightarrow> script_loop ss (commit db'))"

definition executescript :: "sql list \<Rightarrow> database \<Rightarrow> (error + unit) \<times> database" where
  "executescript ss db = script_loop ss (commit db)"

subsection \<open>Customers and products\<close>

definition add_customer :: "customer \<Rightarrow> database \<Rightarrow> (error + int) \<times> database" where
  "add_customer customer db =
     (case execute (INSERT_customers (c_name customer) (Some (c_email customer))
                      (Some (c_phone customer))) db of
        (Inl e, db') \<Rightarrow> (Inl e, db')
      | (Inr rid, db') \<Rightarrow> (Inr rid, commit db'))"

fun mapM :: "('a \<Rightarrow> error + 'b) \<Rightarrow> 'a list \<Rightarrow> error + 'b list" where
  "mapM f [] = Inr []"
| "mapM f (x # xs) = ebind (f x) (\<lambda>y. ebind (mapM f xs) (\<lambda>ys. Inr (y # ys)))"

definition or_empty :: "string option \<Rightarrow> string" where
  "or_empty v = (case v of None \<Rightarrow> [] | Some s \<Rightarrow> s)"

definition list_customers :: "database \<Rightarrow> error + customer list" where
  "list_customers db =
     mapM (\<lambda>r. Customer (Some (cr_id r)) (cr_name r) (or_empty (cr_email r)) (or_empty (cr_phone r)))
          (rev (sort_key cr_id (customers (conn db))))"

definition add_product :: "product \<Rightarrow> database \<Rightarrow> (error + int) \<times> database" where
  "add_product product db =
     (case execute (INSERT_products (p_title product) (p_price product)) db of
        (Inl e, db') \<Rightarrow> (Inl e, db')
      | (Inr rid, db') \<Rightarrow> (Inr rid, commit db'))"

definition list_products :: "database \<Rightarrow> error + product list" where
  "list_products db =
     mapM (\<lambda>r. Product (Some (pr_id r)) (pr_title r) (pr_price r))
          (rev (sort_key pr_id (products (conn db))))"

subsection \<open>Orders\<close>

fun add_order_items :: "int \<Rightarrow> order_item list \<Rightarrow> database \<Rightarrow> (error + unit) \<times> database" where
  "add_order_items order_id [] db = (Inr (), db)"
| "add_order_items order_id (it # its) db =
     (case execute (INSERT_order_items order_id (product_id it) (unit_price it) (quantity it)) db of
        (Inl e, db') \<Rightarrow> (Inl e, db')
      | (Inr _, db') \<Rightarrow> add_order_items order_id its db')"

definition add_order :: "order \<Rightarrow> database \<Rightarrow> (error + int) \<times> database" where
  "add_order order db =
     (case execute (INSERT_orders (customer_id order) (isoformat_seconds (created_at order))) db of
        (Inl e, db') \<Rightarrow> (Inl e, db')
      | (Inr order_id, db') \<Rightarrow>
          (case add_order_items order_id (items order) db' of
             (Inl e, db'') \<Rightarrow> (Inl e, db'')
           | (Inr _, db'') \<Rightarrow> (Inr order_id, commit db'')))"

text \<open>
  The rows of \<open>list_orders\<close>: \<open>orders JOIN customers LEFT JOIN order_items GROUP BY
  o.id ORDER BY o.id DESC\<close>. The total is \<open>IFNULL(SUM(oi.unit_price * oi.quantity), 0)\<close>
  over the items of the order, in the order of the table: the sum of the binary64
  products, or the integer 0 when the order has no item. Primary keys are unique, so a
  group is one order with its customer.
\<close>

record order_dict =
  od_id :: int
  od_customer_id :: int
  od_customer_name :: string
  od_created_at :: isotext
  od_total :: rat

definition items_of :: "tables \<Rightarrow> int \<Rightarrow> item_row list" where
  "items_of t oid = filter (\<lambda>oi. ir_order_id oi = oid) (order_items t)"

definition sum_unit_price_quantity :: "item_row list \<Rightarrow> rat" where
  "sum_unit_price_quantity rows =
     (if rows = [] then 0
      else sql_sum (map (\<lambda>oi. fmul (ir_unit_price oi) (of_int (ir_quantity oi))) rows))"

definition order_dict_of :: "tables \<Rightarrow> order_row \<Rightarrow> customer_row \<Rightarrow> order_dict" where
  "order_dict_of t r c =
     \<lparr>od_id = or_id r, od_customer_id = or_customer_id r,
      od_customer_name = cr_name c, od_created_at = or_created_at r,
      od_total = sum_unit_price_quantity (items_of t (or_id r))\<rparr>"

definition list_orders :: "database \<Rightarrow> order_dict list" where
  "list_orders db =
     (let t = conn db in
      concat (map (\<lambda>r. map (order_dict_of t r)
                             (filter (\<lambda>c. cr_id c = or_customer_id r) (customers t)))
                  (rev (sort_key or_id (orders t)))))"

text \<open>
  \<open>get_order_items\<close>: \<open>order_items JOIN products WHERE order_id = ? ORDER BY oi.id\<close>;
  the title of each \<open>OrderItem\<close> is the title of the joined product row.
\<close>

definition get_order_items :: "database \<Rightarrow> int \<Rightarrow> order_item list" where
  "get_order_items db order_id =
     (let t = conn db in
      concat (map (\<lambda>oi.
        map (\<lambda>p. \<lparr>oi_id = Some (ir_id oi), product_id = ir_product_id oi,
                  product_title = pr_title p, unit_price = ir_unit_price oi,
                  quantity = ir_quantity oi\<rparr>)
            (filter (\<lambda>p. pr_id p = ir_product_id oi) (products t)))
        (filter (\<lambda>oi. ir_order_id oi = order_id) (sort_key ir_id (order_items t)))))"

subsection \<open>Invariants of the store\<close>

text \<open>
  \<open>pk_ok\<close>: in every table the rows carry strictly increasing identifiers, which is
  how \<open>AUTOINCREMENT\<close> primary keys leave rows that are kept in insertion order.
  \<open>fk_ok\<close>: the three \<open>FOREIGN KEY\<close> clauses of the schema hold.
\<close>

definition pk_ok :: "tables \<Rightarrow> bool" where
  "pk_ok t =
     (sorted_wrt (<) (map cr_id (customers t)) \<and>
      sorted_wrt (<) (map pr_id (products t)) \<and>
      sorted_wrt (<) (map or_id (orders t)) \<and>
      sorted_wrt (<) (map ir_id (order_items t)))"

definition fk_ok :: "tables \<Rightarrow> bool" where
  "fk_ok t =
     (list_all (\<lambda>r. or_customer_id r \<in> set (map cr_id (customers t))) (orders t) \<and>
      list_all (\<lambda>i. ir_order_id i \<in> set (map or_id (orders t)) \<and>
                     ir_product_id i \<in> set (map pr_id (products t))) (order_items t))"

section \<open>Example stores\<close>

definition alice :: customer where
  "alice = \<lparr>c_id = None, c_name = ''Alice'', c_email = [], c_phone = []\<rparr>"

definition bob :: customer where
  "bob = \<lparr>c_id = None, c_name = ''Bob'', c_email = ''bob@example.com'', c_phone = ''+22222222''\<rparr>"

definition keyboard :: product where
  "keyboard = \<lparr>p_id = None, p_title = ''Keyboard'', p_price = 50\<rparr>"

definition mouse :: product where
  "mouse = \<lparr>p_id = None, p_title = ''Mouse'', p_price = 20\<rparr>"

text \<open>A new store with Alice and the keyboard in it.\<close>

definition store0 :: database where
  "store0 = snd (add_product keyboard (snd (add_customer alice connect)))"

text \<open>An order of Alice for one keyboard sold at 0.1875.\<close>

definition order_odd_price :: order where
  "order_odd_price = \<lparr>o_id = None, customer_id = 1, created_at = 1735725600000000,
     items = [\<lparr>oi_id = None, product_id = 1, product_title = ''Keyboard'',
               unit_price = 3 / 16, quantity = 1\<rparr>]\<rparr>"

definition store_odd_price :: database where
  "store_odd_price = snd (add_order order_odd_price store0)"

text \<open>An order of Alice for one keyboard at its catalogue price.\<close>

definition order_keyboard :: order where
  "order_keyboard = \<lparr>o_id = None, customer_id = 1, created_at = 1735725600000000,
     items = [\<lparr>oi_id = None, product_id = 1, product_title = ''Keyboard'',
               unit_price = 50, quantity = 1\<rparr>]\<rparr>"

definition store_keyboard :: database where
  "store_keyboard = snd (add_order order_keyboard store0)"

text \<open>An order of Alice whose second item names product 99, which does not exist.\<close>

definition order_bad_item :: order where
  "order_bad_item = \<lparr>o_id = None, customer_id = 1, created_at = 1735725600000000,
     items = [\<lparr>oi_id = None, product_id = 1, product_title = ''Keyboard'',
               unit_price = 50, quantity = 1\<rparr>,
              \<lparr>oi_id = None, product_id = 99, product_title = ''Ghost'',
               unit_price = 1, quantity = 1\<rparr>]\<rparr>"

text \<open>
  A store file in which the product of a stored item is gone: the tables of
  \<open>store_odd_price\<close> without the product row.
\<close>

definition store_dangling :: database where
  "store_dangling =
     (let t = (conn store_odd_price)\<lparr>products := []\<rparr>
      in \<lparr>durable = t, conn = t, statements = []\<rparr>)"

section \<open>shop\_manager.analysis\<close>

text \<open>
  \<open>to_dict\<close> of a customer or a product is the record itself (the same four or three
  fields); \<open>to_dict\<close> of an order item adds \<open>line_total\<close>. A row of \<open>items_df\<close> is
  such a dict with the \<open>order_id\<close> that \<open>build_dataframes\<close> adds.
\<close>

record item_dict =
  idt_id :: "int option"
  idt_product_id :: int
  idt_product_title :: string
  idt_unit_price :: rat
  idt_quantity :: int
  idt_line_total :: rat

record item_df_row = item_dict +
  idf_order_id :: int

definition item_to_dict :: "order_item \<Rightarrow> item_dict" where
  "item_to_dict it = \<lparr>idt_id = oi_id it, idt_product_id = product_id it,
     idt_product_title = product_title it, idt_unit_price = unit_price it,
     idt_quantity = quantity it, idt_line_total = line_total it\<rparr>"

definition items_frame :: "database \<Rightarrow> order_dict list \<Rightarrow> item_df_row list" where
  "items_frame db orders_l =
     concat (map (\<lambda>r. map (\<lambda>it. item_dict.extend (item_to_dict it) \<lparr>idf_order_id = od_id r\<rparr>)
                        (get_order_items db (od_id r))) orders_l)"

definition build_dataframes ::
  "database \<Rightarrow> error + (customer list \<times> product list \<times> order_dict list \<times> item_df_row list)" where
  "build_dataframes db =
     ebind (list_customers db) (\<lambda>customers_l.
     ebind (list_products db) (\<lambda>products_l.
     (let orders_l = list_orders db in
      Inr (customers_l, products_l, orders_l, items_frame db orders_l))))"

text \<open>
  \<open>groupby(key)\<close> of pandas visits the distinct keys in ascending order. The ranking
  is \<open>groupby("customer_name")["id"].count().sort_values(ascending=False).head(5)\<close>.
  pandas does not say in which order \<open>sort_values\<close> leaves equal counts, so the sort is
  a parameter \<open>sort_values\<close> of the model; \<open>sorts_descending\<close> says what every such
  sort does, and \<open>by_count_desc\<close> is one of them.
\<close>

definition group_keys :: "string list \<Rightarrow> string list" where
  "group_keys ks = sort (remdups ks)"

definition groupby_count :: "order_dict list \<Rightarrow> (string \<times> nat) list" where
  "groupby_count orders_df =
     map (\<lambda>n. (n, length (filter (\<lambda>r. od_customer_name r = n) orders_df)))
         (group_keys (map od_customer_name orders_df))"

definition sorts_descending :: "((string \<times> nat) list \<Rightarrow> (string \<times> nat) list) \<Rightarrow> bool" where
  "sorts_descending sort_values =
     (\<forall>g. mset (sort_values g) = mset g \<and>
          sorted_wrt (\<lambda>a b. snd b \<le> snd a) (sort_values g))"

definition by_count_desc :: "(string \<times> nat) list \<Rightarrow> (string \<times> nat) list" where
  "by_count_desc g = rev (sort_key snd g)"

text \<open>The result is what is plotted: \<open>None\<close> is the "no data" picture.\<close>

definition top_customers_by_orders ::
  "((string \<times> nat) list \<Rightarrow> (string \<times> nat) list) \<Rightarrow> database
    \<Rightarrow> error + (string \<times> nat) list option" where
  "top_customers_by_orders sort_values db =
     ebind (build_dataframes db) (\<lambda>(customers_df, products_df, orders_df, items_df).
       if orders_df = [] then Inr None
       else Inr (Some (take 5 (sort_values (groupby_count orders_df)))))"

text \<open>
  \<open>networkx.Graph\<close>: the nodes in the order they were added and the symmetric
  adjacency with the \<open>weight\<close> attribute of each edge.
\<close>

record graph =
  nodes :: "string list"
  adj :: "string \<times> string \<Rightarrow> nat option"

definition empty_graph :: graph where
  "empty_graph = \<lparr>nodes = [], adj = (\<lambda>e. None)\<rparr>"

definition add_node :: "graph \<Rightarrow> string \<Rightarrow> graph" where
  "add_node G n = (if n \<in> set (nodes G) then G else G\<lparr>nodes := nodes G @ [n]\<rparr>)"

definition add_edge :: "graph \<Rightarrow> string \<Rightarrow> string \<Rightarrow> nat \<Rightarrow> graph" where
  "add_edge G a b w =
     (let G = add_node (add_node G a) b
      in G\<lparr>adj := (adj G)((a, b) \<mapsto> w, (b, a) \<mapsto> w)\<rparr>)"

text \<open>
  \<open>order_to_customer\<close> is the dict of \<open>set_index("id")["customer_name"]\<close> (a later
  row replaces an earlier one with the same id); \<open>cust_products\<close> is the dict of
  \<open>groupby("customer_name")["product_id"].apply(set)\<close>, whose keys are the names that
  some row of \<open>items_df\<close> maps to. A row whose order id is not in the dict gets no name
  and belongs to no group.
\<close>

definition order_to_customer :: "order_dict list \<Rightarrow> int \<Rightarrow> string option" where
  "order_to_customer orders_df = map_of (rev (map (\<lambda>r. (od_id r, od_customer_name r)) orders_df))"

definition named_items :: "order_dict list \<Rightarrow> item_df_row list \<Rightarrow> (string \<times> int) list" where
  "named_items orders_df items_df =
     concat (map (\<lambda>row. case order_to_customer orders_df (idf_order_id row) of
                          None \<Rightarrow> []
                        | Some n \<Rightarrow> [(n, idt_product_id row)]) items_df)"

definition cust_products_of :: "(string \<times> int) list \<Rightarrow> (string \<times> int set) list" where
  "cust_products_of named =
     map (\<lambda>n. (n, set (map snd (filter (\<lambda>e. fst e = n) named)))) (group_keys (map fst named))"

text \<open>
  The two nested loops over \<open>cust_list\<close>: the outer one takes the customer at position
  \<open>i\<close>, the inner one every customer at a later position.
\<close>

fun edges_from :: "string \<Rightarrow> int set \<Rightarrow> (string \<times> int set) list \<Rightarrow> graph \<Rightarrow> graph" where
  "edges_from a pa [] G = G"
| "edges_from a pa ((b, pb) # rest) G =
     edges_from a pa rest
       (let shared = pa \<inter> pb in
        if shared \<noteq> {} then add_edge G a b (card shared) else G)"

fun all_pairs :: "(string \<times> int set) list \<Rightarrow> graph \<Rightarrow> graph" where
  "all_pairs [] G = G"
| "all_pairs ((a, pa) # rest) G = all_pairs rest (edges_from a pa rest G)"

definition customer_relationship_graph :: "database \<Rightarrow> error + graph option" where
  "customer_relationship_graph db =
     ebind (build_dataframes db) (\<lambda>(customers_df, products_df, orders_df, items_df).
       if orders_df = [] \<or> items_df = [] then Inr None
       else (let cust_products = cust_products_of (named_items orders_df items_df);
                 G = fold (\<lambda>cust G. add_node G cust) (map fst cust_products) empty_graph
             in Inr (Some (all_pairs cust_products G))))"

subsection \<open>What the claims about the graph speak of\<close>

text \<open>
  The products that the customers called \<open>n\<close> have bought: the product identifiers of
  the items (with an existing product row) of the orders of a customer row with that name.
\<close>

definition purchased :: "tables \<Rightarrow> string \<Rightarrow> int set" where
  "purchased t n =
     set [ir_product_id i. c \<leftarrow> customers t, cr_name c = n,
                           r \<leftarrow> orders t, or_customer_id r = cr_id c,
                           i \<leftarrow> order_items t, ir_order_id i = or_id r,
                           ir_product_id i \<in> set (map pr_id (products t))]"


definition readable :: "database \<Rightarrow> bool" where
  "readable db = (\<not> isl (list_customers db) \<and> \<not> isl (list_products db))"

text \<open>
  The products bought under one customer identifier, and the number of orders placed
  under a customer name.
\<close>

definition purchased_by :: "tables \<Rightarrow> int \<Rightarrow> int set" where
  "purchased_by t cid =
     set [ir_product_id i. r \<leftarrow> orders t, or_customer_id r = cid,
                           i \<leftarrow> order_items t, ir_order_id i = or_id r,
                           ir_product_id i \<in> set (map pr_id (products t))]"

definition orders_of :: "tables \<Rightarrow> int \<Rightarrow> order_row list" where
  "orders_of t cid = filter (\<lambda>r. or_customer_id r = cid) (orders t)"

definition orders_under :: "tables \<Rightarrow> string \<Rightarrow> nat" where
  "orders_under t n =
     sum_list (map (\<lambda>c. length (orders_of t (cr_id c)))
                   (filter (\<lambda>c. cr_name c = n) (customers t)))"


subsection \<open>Example: three customers\<close>

text \<open>
  Customers A, B and C and products 1 to 4; A buys products 1 and 2, B buys 2 and 3,
  C buys 4.
\<close>

definition named_customer :: "string \<Rightarrow> customer" where
  "named_customer n = \<lparr>c_id = None, c_name = n, c_email = [], c_phone = []\<rparr>"

definition titled_product :: "string \<Rightarrow> product" where
  "titled_product n = \<lparr>p_id = None, p_title = n, p_price = 10\<rparr>"

definition buy :: "int \<Rightarrow> int list \<Rightarrow> order" where
  "buy cid pids = \<lparr>o_id = None, customer_id = cid, created_at = 1735725600000000,
     items = map (\<lambda>p. \<lparr>oi_id = None, product_id = p, product_title = [], unit_price = 10,
                        quantity = 1\<rparr>) pids\<rparr>"



section \<open>Export and import\<close>

text \<open>
  The JSON document of \<open>export_json\<close>. \<open>json.dumps\<close> and \<open>json.loads\<close> are
  inverse to each other on such a document (numbers are written with \<open>repr\<close>), so the
  file is modelled by the document itself. A customer or product entry is the
  \<open>to_dict\<close> of the entity, that is the record; \<open>c_id\<close> is \<open>None\<close> when the entry
  has no \<open>"id"\<close>. \<open>float\<close> and \<open>int\<close> applied to a number of the document leave it
  as it is.
\<close>

record order_doc =
  odoc_id :: int
  odoc_customer_id :: int
  odoc_created_at :: isotext
  odoc_total :: rat
  odoc_items :: "item_dict list"

record document =
  doc_customers :: "customer list"
  doc_products :: "product list"
  doc_orders :: "order_doc list"

definition export_json :: "database \<Rightarrow> error + document" where
  "export_json db =
     ebind (list_customers db) (\<lambda>cs.
     ebind (list_products db) (\<lambda>ps.
     Inr \<lparr>doc_customers = cs, doc_products = ps,
          doc_orders =
            map (\<lambda>r. \<lparr>odoc_id = od_id r, odoc_customer_id = od_customer_id r,
                       odoc_created_at = od_created_at r, odoc_total = od_total r,
                       odoc_items = map item_to_dict (get_order_items db (od_id r))\<rparr>)
                (list_orders db)\<rparr>))"

text \<open>\<open>_clear_all\<close>: the script of four \<open>DELETE\<close> statements, then \<open>commit\<close>.\<close>

definition clear_all :: "database \<Rightarrow> (error + unit) \<times> database" where
  "clear_all db =
     (case executescript [DELETE_order_items, DELETE_orders, DELETE_products, DELETE_customers] db of
        (Inl e, db') \<Rightarrow> (Inl e, db')
      | (Inr u, db') \<Rightarrow> (Inr (), commit db'))"

text \<open>
  The dictionaries \<open>cust_map\<close> and \<open>prod_map\<close> are lists of pairs read by \<open>map_of\<close>,
  which takes the first pair with the key: \<open>m[k] = v\<close> puts \<open>(k, v)\<close> in front.
  \<open>remap m i\<close> is \<open>m.get(i, i)\<close>, and \<open>doc_key i new_id\<close> is
  \<open>int(c.get("id") or new_id)\<close>: the identifier of the entry, or the new identifier
  when the entry has none or has 0.
\<close>

type_synonym id_map = "(int \<times> int) list"

definition remap :: "id_map \<Rightarrow> int \<Rightarrow> int" where
  "remap m i = (case map_of m i of None \<Rightarrow> i | Some n \<Rightarrow> n)"

definition doc_key :: "int option \<Rightarrow> int \<Rightarrow> int" where
  "doc_key i new_id = (case i of None \<Rightarrow> new_id | Some v \<Rightarrow> if v = 0 then new_id else v)"

fun import_customers ::
  "customer list \<Rightarrow> id_map \<Rightarrow> database \<Rightarrow> (error + id_map) \<times> database" where
  "import_customers [] cust_map db = (Inr cust_map, db)"
| "import_customers (c # cs) cust_map db =
     (case Customer None (c_name c) (c_email c) (c_phone c) of
        Inl e \<Rightarrow> (Inl e, db)
      | Inr cust \<Rightarrow>
          (case add_customer cust db of
             (Inl e, db') \<Rightarrow> (Inl e, db')
           | (Inr new_id, db') \<Rightarrow>
               import_customers cs ((doc_key (c_id c) new_id, new_id) # cust_map) db'))"

fun import_products ::
  "product list \<Rightarrow> id_map \<Rightarrow> database \<Rightarrow> (error + id_map) \<times> database" where
  "import_products [] prod_map db = (Inr prod_map, db)"
| "import_products (p # ps) prod_map db =
     (case Product None (p_title p) (p_price p) of
        Inl e \<Rightarrow> (Inl e, db)
      | Inr product \<Rightarrow>
          (case add_product product db of
             (Inl e, db') \<Rightarrow> (Inl e, db')
           | (Inr new_id, db') \<Rightarrow>
               import_products ps ((doc_key (p_id p) new_id, new_id) # prod_map) db'))"

text \<open>The inner loop of the order import: one \<open>add_item\<close> per item of the document.\<close>

fun add_items :: "order \<Rightarrow> order_item list \<Rightarrow> error + order" where
  "add_items ord [] = Inr ord"
| "add_items ord (it # its) = ebind (add_item ord it) (\<lambda>ord'. add_items ord' its)"

definition item_of_dict :: "id_map \<Rightarrow> item_dict \<Rightarrow> order_item" where
  "item_of_dict prod_map it =
     \<lparr>oi_id = None, product_id = remap prod_map (idt_product_id it),
      product_title = idt_product_title it, unit_price = idt_unit_price it,
      quantity = idt_quantity it\<rparr>"

fun import_orders ::
  "id_map \<Rightarrow> id_map \<Rightarrow> order_doc list \<Rightarrow> database \<Rightarrow> (error + unit) \<times> database" where
  "import_orders cust_map prod_map [] db = (Inr (), db)"
| "import_orders cust_map prod_map (d # ds) db =
     (case add_items \<lparr>o_id = None, customer_id = remap cust_map (odoc_customer_id d),
                       created_at = fromisoformat (odoc_created_at d), items = []\<rparr>
                     (map (item_of_dict prod_map) (odoc_items d)) of
        Inl e \<Rightarrow> (Inl e, db)
      | Inr ord \<Rightarrow>
          (case add_order ord db of
             (Inl e, db') \<Rightarrow> (Inl e, db')
           | (Inr new_id, db') \<Rightarrow> import_orders cust_map prod_map ds db'))"

definition import_json :: "document \<Rightarrow> bool \<Rightarrow> database \<Rightarrow> (error + unit) \<times> database" where
  "import_json data clear_first db =
     (case (if clear_first then clear_all db else (Inr (), db)) of
        (Inl e, db0) \<Rightarrow> (Inl e, db0)
      | (Inr u, db0) \<Rightarrow>
     (case import_customers (doc_customers data) [] db0 of
        (Inl e, db1) \<Rightarrow> (Inl e, db1)
      | (Inr cust_map, db1) \<Rightarrow>
     (case import_products (doc_products data) [] db1 of
        (Inl e, db2) \<Rightarrow> (Inl e, db2)
      | (Inr prod_map, db2) \<Rightarrow>
          import_orders cust_map prod_map (doc_orders data) db2)))"

text \<open>
  What a list of statements shows of an import: the customer of every
  \<open>INSERT INTO orders\<close> and the product of every \<open>INSERT INTO order_items\<close>, in the
  order of the statements. \<open>id_table olds news\<close> is the table that maps the identifier
  of each entry of the document to the identifier its row was given, a later entry
  before an earlier one.
\<close>

fun is_insert :: "sql \<Rightarrow> bool" where
  "is_insert DELETE_order_items = False"
| "is_insert DELETE_orders = False"
| "is_insert DELETE_products = False"
| "is_insert DELETE_customers = False"
| "is_insert s = True"

definition order_customer_refs :: "sql list \<Rightarrow> int list" where
  "order_customer_refs ss =
     concat (map (\<lambda>s. case s of INSERT_orders cid ts \<Rightarrow> [cid] | _ \<Rightarrow> []) ss)"

definition item_product_refs :: "sql list \<Rightarrow> int list" where
  "item_product_refs ss =
     concat (map (\<lambda>s. case s of INSERT_order_items oid pid up q \<Rightarrow> [pid] | _ \<Rightarrow> []) ss)"

definition id_table :: "int option list \<Rightarrow> int list \<Rightarrow> id_map" where
  "id_table olds news = rev (map (\<lambda>(i, n). (doc_key i n, n)) (zip olds news))"

subsection \<open>Example: a document with a reference to a product it does not list\<close>

text \<open>
  Bob is customer 9 and the mouse is product 5 of the document; the order is Bob's,
  for one mouse and one product 1, which is not in the document.
\<close>

definition doc_bob :: document where
  "doc_bob =
     \<lparr>doc_customers = [\<lparr>c_id = Some 9, c_name = ''Bob'', c_email = [], c_phone = []\<rparr>],
      doc_products = [\<lparr>p_id = Some 5, p_title = ''Mouse'', p_price = 20\<rparr>],
      doc_orders =
        [\<lparr>odoc_id = 3, odoc_customer_id = 9, odoc_created_at = 1735725600, odoc_total = 70,
          odoc_items =
            [\<lparr>idt_id = Some 4, idt_product_id = 5, idt_product_title = ''Mouse'',
              idt_unit_price = 20, idt_quantity = 1, idt_line_total = 20\<rparr>,
             \<lparr>idt_id = Some 5, idt_product_id = 1, idt_product_title = ''Keyboard'',
              idt_unit_price = 50, idt_quantity = 1, idt_line_total = 50\<rparr>]\<rparr>]\<rparr>"

section \<open>More example stores\<close>

subsection \<open>Example: an order without items\<close>


subsection \<open>Example: two customers with one name\<close>

text \<open>
  Two customers called Ann and a customer Bo; the first Ann buys products 1 and 2 in one
  order, the second Ann buys product 3 in each of two orders, Bo buys products 2 and 3.
\<close>

definition store_two_anns :: database where
  "store_two_anns =
     snd (add_order (buy 3 [2, 3]) (snd (add_order (buy 2 [3]) (snd (add_order (buy 2 [3])
       (snd (add_order (buy 1 [1, 2])
         (fold (\<lambda>p db. snd (add_product (titled_product p) db)) [''P1'', ''P2'', ''P3'']
           (fold (\<lambda>c db. snd (add_customer (named_customer c) db)) [''Ann'', ''Ann'', ''Bo'']
              connect)))))))))"

section \<open>Properties of the sort utility\<close>

lemma merge_loop_exit:
  "\<not> (i < length left \<and> j < length right) \<Longrightarrow>
   merge_loop key reverse left right i j out = out @ drop i left @ drop j right"
  by (subst merge_loop.simps) auto

lemma merge_loop_left:
  "i < length left \<Longrightarrow> j < length right \<Longrightarrow> leq reverse (key (left ! i)) (key (right ! j)) \<Longrightarrow>
   merge_loop key reverse left right i j out =
     merge_loop key reverse left right (i + 1) j (out @ [left ! i])"
  by (subst merge_loop.simps) auto

lemma merge_loop_right:
  "i < length left \<Longrightarrow> j < length right \<Longrightarrow> \<not> leq reverse (key (left ! i)) (key (right ! j)) \<Longrightarrow>
   merge_loop key reverse left right i j out =
     merge_loop key reverse left right i (j + 1) (out @ [right ! j])"
  by (subst merge_loop.simps) auto

lemma merge_rec_Nil2: "merge_rec key reverse xs [] = xs"
  by (cases xs) simp_all

lemma merge_loop_rec:
  "merge_loop key reverse left right i j out =
     out @ merge_rec key reverse (drop i left) (drop j right)"
proof (induction key reverse left right i j out rule: merge_loop.induct)
  case (1 key reverse left right i j out)
  show ?case
  proof (cases "i < length left \<and> j < length right")
    case False
    then have "drop i left = [] \<or> drop j right = []" by auto
    then have "merge_rec key reverse (drop i left) (drop j right) = drop i left @ drop j right"
      by (auto simp: merge_rec_Nil2)
    with False show ?thesis
      by (simp add: merge_loop_exit)
  next
    case True
    then have il: "i < length left" and jr: "j < length right" by simp_all
    have dl: "drop i left = left ! i # drop (Suc i) left"
      using il by (simp add: Cons_nth_drop_Suc)
    have dr: "drop j right = right ! j # drop (Suc j) right"
      using jr by (simp add: Cons_nth_drop_Suc)
    show ?thesis
    proof (cases "leq reverse (key (left ! i)) (key (right ! j))")
      case l: True
      have "merge_loop key reverse left right i j out =
              merge_loop key reverse left right (i + 1) j (out @ [left ! i])"
        using il jr l by (rule merge_loop_left)
      also have "\<dots> = (out @ [left ! i]) @ merge_rec key reverse (drop (i + 1) left) (drop j right)"
        using "1.IH"(1) True l by simp
      also have "\<dots> = out @ merge_rec key reverse (left ! i # drop (Suc i) left) (right ! j # drop (Suc j) right)"
        using l dr by simp
      finally show ?thesis using dl dr by simp
    next
      case l: False
      have "merge_loop key reverse left right i j out =
              merge_loop key reverse left right i (j + 1) (out @ [right ! j])"
        using il jr l by (rule merge_loop_right)
      also have "\<dots> = (out @ [right ! j]) @ merge_rec key reverse (drop i left) (drop (j + 1) right)"
        using "1.IH"(2) True l by simp
      also have "\<dots> = out @ merge_rec key reverse (left ! i # drop (Suc i) left) (right ! j # drop (Suc j) right)"
        using l dl by simp
      finally show ?thesis using dl dr by simp
    qed
  qed
qed

lemma merge_eq_rec: "merge left right key reverse = merge_rec key reverse left right"
  by (simp add: merge_def merge_loop_rec)

lemma mset_merge_rec: "mset (merge_rec key reverse xs ys) = mset xs + mset ys"
  by (induction key reverse xs ys rule: merge_rec.induct) auto

lemma set_merge_rec: "set (merge_rec key reverse xs ys) = set xs \<union> set ys"
  by (induction key reverse xs ys rule: merge_rec.induct) auto

lemma leq_total: "\<not> leq reverse a b \<Longrightarrow> leq reverse b a"
  by (auto simp: leq_def)

lemma leq_trans: "leq reverse a b \<Longrightarrow> leq reverse b c \<Longrightarrow> leq reverse a c"
  by (auto simp: leq_def)

lemma ordered_merge_rec:
  "ordered_by key reverse xs \<Longrightarrow> ordered_by key reverse ys \<Longrightarrow>
   ordered_by key reverse (merge_rec key reverse xs ys)"
proof (induction key reverse xs ys rule: merge_rec.induct)
  case (3 key reverse x xs y ys)
  show ?case
  proof (cases "leq reverse (key x) (key y)")
    case True
    have "\<forall>z \<in> set ys. leq reverse (key x) (key z)"
      using "3.prems"(2) True by (auto intro: leq_trans)
    with 3 True show ?thesis by (auto simp: set_merge_rec)
  next
    case False
    then have yx: "leq reverse (key y) (key x)" by (rule leq_total)
    have "\<forall>z \<in> set xs. leq reverse (key y) (key z)"
      using "3.prems"(1) yx by (auto intro: leq_trans)
    with 3 False yx show ?thesis by (auto simp: set_merge_rec)
  qed
qed simp_all

lemma filter_key_merge_rec:
  "ordered_by key reverse xs \<Longrightarrow>
   filter (\<lambda>a. key a = k) (merge_rec key reverse xs ys) =
     filter (\<lambda>a. key a = k) xs @ filter (\<lambda>a. key a = k) ys"
proof (induction key reverse xs ys rule: merge_rec.induct)
  case (3 key reverse x xs y ys)
  show ?case
  proof (cases "leq reverse (key x) (key y)")
    case True
    with 3 show ?thesis by simp
  next
    case False
    have none: "key y = k \<Longrightarrow> filter (\<lambda>a. key a = k) (x # xs) = []"
    proof -
      assume ky: "key y = k"
      have "\<forall>z \<in> set (x # xs). key z \<noteq> key y"
      proof
        fix z assume z: "z \<in> set (x # xs)"
        have "leq reverse (key x) (key z)"
          using z "3.prems" by (auto simp: leq_def)
        with False show "key z \<noteq> key y" by (auto simp: leq_def split: if_splits)
      qed
      with ky show ?thesis by (auto simp: filter_empty_conv)
    qed
    have "filter (\<lambda>a. key a = k) (merge_rec key reverse (x # xs) (y # ys)) =
            filter (\<lambda>a. key a = k) (y # merge_rec key reverse (x # xs) ys)"
      using False by simp
    also have "\<dots> = filter (\<lambda>a. key a = k) [y] @
            (filter (\<lambda>a. key a = k) (x # xs) @ filter (\<lambda>a. key a = k) ys)"
      using "3.IH"(2) False "3.prems" by simp
    also have "\<dots> = filter (\<lambda>a. key a = k) (x # xs) @ filter (\<lambda>a. key a = k) (y # ys)"
      using none by (cases "key y = k") simp_all
    finally show ?thesis .
  qed
qed simp_all

lemma merge_sort_unfold:
  "1 < length data \<Longrightarrow>
   merge_sort data key reverse =
     merge_rec key reverse (merge_sort (take (length data div 2) data) key reverse)
                           (merge_sort (drop (length data div 2) data) key reverse)"
  by (subst merge_sort.simps) (simp add: merge_eq_rec Let_def)

lemma merge_sort_short: "length data \<le> 1 \<Longrightarrow> merge_sort data key reverse = data"
  by (subst merge_sort.simps) simp

lemma mset_merge_sort: "mset (merge_sort data key reverse) = mset data"
proof (induction data key reverse rule: merge_sort.induct)
  case (1 data key reverse)
  show ?case
  proof (cases "length data \<le> 1")
    case True
    then show ?thesis by (simp add: merge_sort_short)
  next
    case False
    then have "mset (merge_sort data key reverse) =
        mset (take (length data div 2) data) + mset (drop (length data div 2) data)"
      using "1.IH" by (simp add: merge_sort_unfold mset_merge_rec)
    also have "\<dots> = mset (take (length data div 2) data @ drop (length data div 2) data)"
      by (simp only: mset_append)
    finally show ?thesis by simp
  qed
qed

lemma ordered_merge_sort: "ordered_by key reverse (merge_sort data key reverse)"
proof (induction data key reverse rule: merge_sort.induct)
  case (1 data key reverse)
  show ?case
  proof (cases "length data \<le> 1")
    case True
    then have "data = [] \<or> (\<exists>x. data = [x])"
      by (cases data) auto
    with True show ?thesis by (auto simp: merge_sort_short)
  next
    case False
    then show ?thesis
      using "1.IH" by (simp add: merge_sort_unfold ordered_merge_rec)
  qed
qed

lemma stable_merge_sort:
  "filter (\<lambda>a. key a = k) (merge_sort data key reverse) = filter (\<lambda>a. key a = k) data"
proof (induction data key reverse rule: merge_sort.induct)
  case (1 data key reverse)
  show ?case
  proof (cases "length data \<le> 1")
    case True
    then show ?thesis by (simp add: merge_sort_short)
  next
    case False
    then have "filter (\<lambda>a. key a = k) (merge_sort data key reverse) =
        filter (\<lambda>a. key a = k) (take (length data div 2) data) @
        filter (\<lambda>a. key a = k) (drop (length data div 2) data)"
      using "1.IH" by (simp add: merge_sort_unfold filter_key_merge_rec ordered_merge_sort)
    also have "\<dots> = filter (\<lambda>a. key a = k) (take (length data div 2) data @ drop (length data div 2) data)"
      by (simp only: filter_append)
    finally show ?thesis by simp
  qed
qed

text \<open>
  C3. For every finite list and key function, \<open>merge_sort\<close> returns a permutation of its
  input; the keys of the result are non-decreasing when \<open>reverse\<close> is false and
  non-increasing when it is true; and the sort is stable in both directions: the elements
  carrying any one key value appear in the same order as in the input.
\<close>

theorem merge_sort_correct:
  "mset (merge_sort data key reverse) = mset data \<and>
   (\<not> reverse \<longrightarrow> sorted_wrt (\<lambda>a b. key a \<le> key b) (merge_sort data key reverse)) \<and>
   (reverse \<longrightarrow> sorted_wrt (\<lambda>a b. key a \<ge> key b) (merge_sort data key reverse)) \<and>
   (\<forall>k. filter (\<lambda>a. key a = k) (merge_sort data key reverse) = filter (\<lambda>a. key a = k) data)"
proof -
  have "ordered_by key reverse (merge_sort data key reverse)"
    by (rule ordered_merge_sort)
  then have "(\<not> reverse \<longrightarrow> sorted_wrt (\<lambda>a b. key a \<le> key b) (merge_sort data key reverse)) \<and>
   (reverse \<longrightarrow> sorted_wrt (\<lambda>a b. key a \<ge> key b) (merge_sort data key reverse))"
    by (cases reverse) (simp_all add: leq_def)
  then show ?thesis
    by (simp add: mset_merge_sort stable_merge_sort)
qed

theorem merge_sort_correct_witness:
  "merge_sort [(3::nat, ''a''), (1, ''b''), (3, ''c''), (1, ''d'')] fst False =
     [(1, ''b''), (1, ''d''), (3, ''a''), (3, ''c'')] \<and>
   sorted_wrt (\<lambda>a b. fst a \<le> fst b)
     (merge_sort [(3::nat, ''a''), (1, ''b''), (3, ''c''), (1, ''d'')] fst False) \<and>
   merge_sort [(3::nat, ''a''), (1, ''b''), (3, ''c''), (1, ''d'')] fst True =
     [(3, ''a''), (3, ''c''), (1, ''b''), (1, ''d'')] \<and>
   sorted_wrt (\<lambda>a b. fst a \<ge> fst b)
     (merge_sort [(3::nat, ''a''), (1, ''b''), (3, ''c''), (1, ''d'')] fst True)"
proof -
  let ?d = "[(3::nat, ''a''), (1, ''b''), (3, ''c''), (1, ''d'')]"
  have a: "merge_sort ?d fst False = [(1, ''b''), (1, ''d''), (3, ''a''), (3, ''c'')]"
    by code_simp
  have b: "merge_sort ?d fst True = [(3, ''a''), (3, ''c''), (1, ''b''), (1, ''d'')]"
    by code_simp
  have c: "sorted_wrt (\<lambda>a b. fst a \<le> fst b) (merge_sort ?d fst False)"
    using merge_sort_correct [of ?d fst False] by blast
  have d: "sorted_wrt (\<lambda>a b. fst a \<ge> fst b) (merge_sort ?d fst True)"
    using merge_sort_correct [of ?d fst True] by blast
  show ?thesis using a b c d by blast
qed

section \<open>Properties of the domain model\<close>

lemma strip_Nil [simp]: "strip [] = []"
  by (simp add: strip_def)

text \<open>
  Whenever the name argument is not the empty string, construction behaves as the
  validation rules say: it fails exactly when the trimmed name is empty or a non-empty
  trimmed e-mail or phone does not match its pattern, and otherwise stores the trimmed
  values.
\<close>

lemma Customer_nonempty_name:
  assumes "n \<noteq> []"
  shows "Customer i n e p =
     (if strip n = [] \<or> (strip e \<noteq> [] \<and> \<not> re_match EMAIL_RE (strip e))
          \<or> (strip p \<noteq> [] \<and> \<not> re_match PHONE_RE (strip p))
      then Inl ValidationError
      else Inr \<lparr>c_id = i, c_name = strip n, c_email = strip e, c_phone = strip p\<rparr>)"
proof (cases "strip n = []")
  case True
  with assms show ?thesis
    by (simp add: Customer_def Customer_post_init_def Person_post_init_def name_setter_def
        ebind_def)
next
  case False
  with assms show ?thesis
    by (cases "e = []"; cases "p = []")
       (auto simp add: Customer_def Customer_post_init_def Person_post_init_def name_setter_def
          email_setter_def phone_setter_def ebind_def Let_def)
qed

text \<open>
  C2. The claim says that construction fails with \<open>ValidationError\<close> for any empty
  name. \<open>Person.__post_init__\<close> validates the name only when \<open>_name\<close> is truthy, so
  \<open>Customer(_name="")\<close> returns a customer whose name is the empty string.
\<close>

theorem Customer_empty_name_accepted:
  "Customer i [] [] [] = Inr \<lparr>c_id = i, c_name = [], c_email = [], c_phone = []\<rparr>"
  by (simp add: Customer_def Customer_post_init_def Person_post_init_def ebind_def)

section \<open>Properties of the persistence layer\<close>

subsection \<open>The invariants are kept by every statement\<close>

lemma fold_max_ge: "(a::int) \<le> fold max ids a"
  by (induction ids arbitrary: a) (auto intro: order_trans [OF max.cobounded2])

lemma fold_max_mem: "(x::int) \<in> set ids \<Longrightarrow> x \<le> fold max ids a"
proof (induction ids arbitrary: a)
  case Nil
  then show ?case by simp
next
  case (Cons y ys)
  show ?case
  proof (cases "x = y")
    case True
    have "max y a \<le> fold max ys (max y a)" by (rule fold_max_ge)
    with True show ?thesis by simp
  next
    case False
    with Cons show ?thesis by simp
  qed
qed

lemma next_rowid_gt: "x \<in> set ids \<Longrightarrow> x < next_rowid s ids"
  using fold_max_mem [of x ids 0] by (simp add: next_rowid_def)

lemma next_rowid_gt_seq: "s < next_rowid s ids"
  by (simp add: next_rowid_def)

lemma sorted_append_rowid:
  "sorted_wrt (<) ids \<Longrightarrow> sorted_wrt (<) (ids @ [next_rowid s ids])"
  by (simp add: sorted_wrt_append next_rowid_gt)

lemma sorted_map_filter:
  "sorted_wrt (<) (map f xs) \<Longrightarrow> sorted_wrt (<) (map f (filter P xs))"
  by (induction xs) auto

lemma run_pk_ok:
  assumes "pk_ok t" and "run s t = Inr (rid, t')"
  shows "pk_ok t'"
proof (cases s)
  case (INSERT_customers n e p)
  with assms show ?thesis
    by (auto simp: pk_ok_def Let_def sorted_append_rowid)
next
  case (INSERT_products ti pr)
  with assms show ?thesis
    by (auto simp: pk_ok_def Let_def sorted_append_rowid)
next
  case (INSERT_orders cid ts)
  with assms show ?thesis
    by (auto simp: pk_ok_def Let_def sorted_append_rowid split: if_splits)
next
  case (INSERT_order_items oid pid up q)
  with assms show ?thesis
    by (auto simp: pk_ok_def Let_def sorted_append_rowid split: if_splits)
next
  case DELETE_order_items
  with assms show ?thesis by (auto simp: pk_ok_def)
next
  case DELETE_orders
  with assms show ?thesis by (auto simp: pk_ok_def sorted_map_filter)
next
  case DELETE_products
  with assms show ?thesis by (auto simp: pk_ok_def split: if_splits)
next
  case DELETE_customers
  with assms show ?thesis by (auto simp: pk_ok_def Let_def sorted_map_filter)
qed

lemma run_fk_ok:
  assumes "fk_ok t" and "run s t = Inr (rid, t')"
  shows "fk_ok t'"
proof (cases s)
  case (INSERT_customers n e p)
  with assms show ?thesis
    by (auto simp: fk_ok_def Let_def list_all_iff)
next
  case (INSERT_products ti pr)
  with assms show ?thesis
    by (auto simp: fk_ok_def Let_def list_all_iff)
next
  case (INSERT_orders cid ts)
  with assms show ?thesis
    by (auto simp: fk_ok_def Let_def list_all_iff split: if_splits)
next
  case (INSERT_order_items oid pid up q)
  with assms show ?thesis
    by (auto simp: fk_ok_def Let_def list_all_iff split: if_splits)
next
  case DELETE_order_items
  with assms show ?thesis by (auto simp: fk_ok_def)
next
  case DELETE_orders
  with assms show ?thesis by (auto simp: fk_ok_def list_all_iff)
next
  case DELETE_products
  with assms show ?thesis by (auto simp: fk_ok_def list_all_iff split: if_splits)
next
  case DELETE_customers
  with assms show ?thesis by (auto simp: fk_ok_def Let_def list_all_iff)
qed

lemma execute_conn_inv:
  assumes "pk_ok (conn db)" and "fk_ok (conn db)"
  shows "pk_ok (conn (snd (execute s db))) \<and> fk_ok (conn (snd (execute s db)))"
proof (cases "run s (conn db)")
  case (Inl e)
  with assms show ?thesis by (simp add: execute_def)
next
  case (Inr r)
  obtain rid t' where r: "r = (rid, t')" by (cases r)
  with Inr assms run_pk_ok [of "conn db" s rid t'] run_fk_ok [of "conn db" s rid t']
  show ?thesis by (simp add: execute_def)
qed

subsection \<open>get\_order\_items\<close>

lemma join_unique_key:
  "distinct (map k ps) \<Longrightarrow>
   map f (filter (\<lambda>p. k p = x) ps) =
     (case map_of (map (\<lambda>p. (k p, f p)) ps) x of None \<Rightarrow> [] | Some v \<Rightarrow> [v])"
proof (induction ps)
  case Nil
  then show ?case by simp
next
  case (Cons p ps)
  show ?case
  proof (cases "k p = x")
    case True
    then have "x \<notin> set (map k ps)" using Cons.prems by auto
    then have "filter (\<lambda>p. k p = x) ps = []"
      by (auto simp: filter_empty_conv)
    with True show ?thesis by simp
  next
    case False
    with Cons show ?thesis by simp
  qed
qed

lemma strict_sorted_distinct: "sorted_wrt (<) (xs::int list) \<Longrightarrow> distinct xs"
  by (induction xs) auto

lemma strict_sorted_sorted: "sorted_wrt (<) (xs::int list) \<Longrightarrow> sorted xs"
  by (induction xs) auto

lemma sort_key_strict_sorted:
  "sorted_wrt (<) (map f xs) \<Longrightarrow> sort_key f xs = xs" for f :: "'a \<Rightarrow> int"
  by (simp add: sort_key_id_if_sorted strict_sorted_sorted)

text \<open>
  C6 as stated fails: \<open>store_dangling\<close> holds an item of order 1 whose product row is
  gone, and \<open>get_order_items\<close> returns nothing for that order. The inner join drops the
  item; the schema has no title column on \<open>order_items\<close> to fall back to.
\<close>

theorem get_order_items_counterexample:
  "map ir_id (items_of (conn store_dangling) 1) = [1] \<and> get_order_items store_dangling 1 = []"
  by code_simp

text \<open>
  C6, amended. In a store whose primary keys are in order, \<open>get_order_items\<close> goes
  through the stored items of the order in insertion order and returns each item whose
  product row exists, with the current title of that product and the item's own price
  and quantity; an item whose product row is missing is left out. When the foreign keys
  of the schema hold, every stored item of the order is returned.
\<close>

theorem get_order_items_join:
  assumes "pk_ok (conn db)"
  shows "get_order_items db order_id =
     concat (map (\<lambda>oi.
        case map_of (map (\<lambda>p. (pr_id p, pr_title p)) (products (conn db))) (ir_product_id oi) of
          None \<Rightarrow> []
        | Some title \<Rightarrow> [\<lparr>oi_id = Some (ir_id oi), product_id = ir_product_id oi,
                           product_title = title, unit_price = ir_unit_price oi,
                           quantity = ir_quantity oi\<rparr>])
        (items_of (conn db) order_id)) \<and>
     (fk_ok (conn db) \<longrightarrow>
        map oi_id (get_order_items db order_id) =
          map (\<lambda>oi. Some (ir_id oi)) (items_of (conn db) order_id))"
proof -
  let ?t = "conn db"
  let ?titles = "map_of (map (\<lambda>p. (pr_id p, pr_title p)) (products ?t))"
  let ?mk = "\<lambda>oi title. \<lparr>oi_id = Some (ir_id oi), product_id = ir_product_id oi,
                           product_title = title, unit_price = ir_unit_price oi,
                           quantity = ir_quantity oi\<rparr>"
  have d: "distinct (map pr_id (products ?t))"
    using assms by (simp add: pk_ok_def strict_sorted_distinct)
  have s: "sort_key ir_id (order_items ?t) = order_items ?t"
    using assms by (simp add: pk_ok_def sort_key_strict_sorted)
  have j: "map (\<lambda>p. ?mk oi (pr_title p)) (filter (\<lambda>p. pr_id p = ir_product_id oi) (products ?t)) =
      (case ?titles (ir_product_id oi) of None \<Rightarrow> [] | Some title \<Rightarrow> [?mk oi title])" for oi
  proof -
    have "map (\<lambda>p. ?mk oi (pr_title p)) (filter (\<lambda>p. pr_id p = ir_product_id oi) (products ?t)) =
          map (?mk oi) (map pr_title (filter (\<lambda>p. pr_id p = ir_product_id oi) (products ?t)))"
      by simp
    also have "\<dots> = map (?mk oi) (case ?titles (ir_product_id oi) of None \<Rightarrow> [] | Some v \<Rightarrow> [v])"
      by (simp only: join_unique_key [OF d])
    also have "\<dots> = (case ?titles (ir_product_id oi) of None \<Rightarrow> [] | Some title \<Rightarrow> [?mk oi title])"
      by (simp split: option.split)
    finally show ?thesis .
  qed
  have main: "get_order_items db order_id =
      concat (map (\<lambda>oi. case ?titles (ir_product_id oi) of None \<Rightarrow> [] | Some title \<Rightarrow> [?mk oi title])
                  (items_of ?t order_id))"
    unfolding get_order_items_def Let_def s j items_of_def ..
  have all: "map oi_id (concat (map (\<lambda>oi. case ?titles (ir_product_id oi) of None \<Rightarrow> []
                 | Some title \<Rightarrow> [?mk oi title]) rows)) = map (\<lambda>oi. Some (ir_id oi)) rows"
    if "\<forall>oi \<in> set rows. ir_product_id oi \<in> set (map pr_id (products ?t))" for rows
    using that
  proof (induction rows)
    case Nil
    then show ?case by simp
  next
    case (Cons r rows)
    then have "ir_product_id r \<in> fst ` set (map (\<lambda>p. (pr_id p, pr_title p)) (products ?t))"
      by force
    then have "?titles (ir_product_id r) \<noteq> None"
      by (simp only: map_of_eq_None_iff not_not)
    then obtain title where "?titles (ir_product_id r) = Some title"
      by blast
    with Cons show ?case by simp
  qed
  have "fk_ok ?t \<longrightarrow> map oi_id (get_order_items db order_id) =
          map (\<lambda>oi. Some (ir_id oi)) (items_of ?t order_id)"
  proof
    assume "fk_ok ?t"
    then have "\<forall>oi \<in> set (items_of ?t order_id). ir_product_id oi \<in> set (map pr_id (products ?t))"
      by (auto simp: fk_ok_def list_all_iff items_of_def)
    then show "map oi_id (get_order_items db order_id) =
          map (\<lambda>oi. Some (ir_id oi)) (items_of ?t order_id)"
      unfolding main by (rule all)
  qed
  with main show ?thesis by blast
qed

theorem get_order_items_join_witness:
  "pk_ok (conn store_keyboard) \<and> fk_ok (conn store_keyboard) \<and>
   get_order_items store_keyboard 1 =
     [\<lparr>oi_id = Some 1, product_id = 1, product_title = ''Keyboard'', unit_price = 50,
       quantity = 1\<rparr>] \<and>
   map oi_id (get_order_items store_keyboard 1) =
     map (\<lambda>oi. Some (ir_id oi)) (items_of (conn store_keyboard) 1)"
proof -
  have pk: "pk_ok (conn store_keyboard)" by code_simp
  have fk: "fk_ok (conn store_keyboard)" by code_simp
  have v: "get_order_items store_keyboard 1 =
     [\<lparr>oi_id = Some 1, product_id = 1, product_title = ''Keyboard'', unit_price = 50,
       quantity = 1\<rparr>]" by code_simp
  show ?thesis
    using get_order_items_join [OF pk, of 1] pk fk v by blast
qed

subsection \<open>add\_order\<close>

text \<open>
  What \<open>add_order\<close> leaves committed: after a successful call the committed tables are
  the connection's tables; after a failed call the committed tables are those of before
  the call, while the connection keeps the rows inserted before the failure in its
  pending transaction.
\<close>

lemma add_order_items_durable:
  "durable (snd (add_order_items order_id its db)) = durable db"
proof (induction its arbitrary: db)
  case Nil
  then show ?case by simp
next
  case (Cons it its)
  show ?case
  proof (cases "run (INSERT_order_items order_id (product_id it) (unit_price it) (quantity it)) (conn db)")
    case (Inl e)
    then show ?thesis by (simp add: execute_def)
  next
    case (Inr r)
    then show ?thesis using Cons.IH by (cases r) (simp add: execute_def)
  qed
qed

lemma add_order_durable:
  "durable (snd (add_order ord db)) =
     (case fst (add_order ord db) of
        Inl e \<Rightarrow> durable db
      | Inr order_id \<Rightarrow> conn (snd (add_order ord db)))"
proof (cases "run (INSERT_orders (customer_id ord) (isoformat_seconds (created_at ord))) (conn db)")
  case (Inl e)
  then show ?thesis by (simp add: add_order_def execute_def)
next
  case (Inr r)
  obtain rid t where r: "r = (rid, t)" by (cases r)
  let ?db1 = "db\<lparr>conn := t, statements := statements db @
      [INSERT_orders (customer_id ord) (isoformat_seconds (created_at ord))]\<rparr>"
  have d: "durable (snd (add_order_items rid (items ord) ?db1)) = durable db"
    by (simp add: add_order_items_durable)
  show ?thesis
    using Inr r d
    by (cases "add_order_items rid (items ord) ?db1")
       (auto simp: add_order_def execute_def commit_def split: sum.splits)
qed

text \<open>
  C9. The claim says that a failed \<open>add_order\<close> leaves none of the order visible. In
  \<open>store0\<close>, \<open>add_order\<close> of \<open>order_bad_item\<close> inserts the header and the first
  item, raises \<open>IntegrityError\<close> on the second item and returns without rolling back:
  the connection then lists order 1 with one of its two items, and the next commit (here
  that of \<open>add_customer bob\<close>) makes this partial order durable.
\<close>

theorem add_order_partial_write:
  "fst (add_order order_bad_item store0) = Inl IntegrityError \<and>
   list_orders store0 = [] \<and>
   list_orders (snd (add_order order_bad_item store0)) =
     [\<lparr>od_id = 1, od_customer_id = 1, od_customer_name = ''Alice'',
       od_created_at = 1735725600, od_total = 50\<rparr>] \<and>
   map oi_id (get_order_items (snd (add_order order_bad_item store0)) 1) = [Some 1] \<and>
   orders (durable (snd (add_customer bob (snd (add_order order_bad_item store0))))) =
     [\<lparr>or_id = 1, or_customer_id = 1, or_created_at = 1735725600\<rparr>] \<and>
   map ir_id (order_items (durable (snd (add_customer bob (snd (add_order order_bad_item store0)))))) = [1]"
  by code_simp

section \<open>Properties of the analytics\<close>

subsection \<open>The data frames\<close>

lemma build_dataframes_readable:
  assumes "readable db"
  shows "\<exists>cs ps. build_dataframes db =
           Inr (cs, ps, list_orders db, items_frame db (list_orders db))"
proof -
  from assms have "\<not> isl (list_customers db)" and "\<not> isl (list_products db)"
    by (simp_all add: readable_def)
  then obtain cs ps where "list_customers db = Inr cs" "list_products db = Inr ps"
    by (cases "list_customers db"; cases "list_products db") auto
  then show ?thesis
    by (simp add: build_dataframes_def ebind_def Let_def)
qed

lemma distinct_concat_at_most_one:
  assumes "distinct (map k xs)"
    and "\<forall>x \<in> set xs. length (f x) \<le> Suc 0"
    and "\<forall>x \<in> set xs. \<forall>y \<in> set (f x). k' y = k x"
  shows "distinct (map k' (concat (map f xs)))"
  using assms
proof (induction xs)
  case Nil
  show ?case by simp
next
  case (Cons x xs)
  from Cons.prems(1) have dk: "distinct (map k xs)" and nk: "k x \<notin> k ` set xs"
    by simp_all
  from Cons.prems(2) have len: "length (f x) \<le> Suc 0"
    and lens: "\<forall>x \<in> set xs. length (f x) \<le> Suc 0"
    by simp_all
  from Cons.prems(3) have kx: "\<And>y. y \<in> set (f x) \<Longrightarrow> k' y = k x"
    and kxs: "\<forall>x \<in> set xs. \<forall>y \<in> set (f x). k' y = k x"
    by simp_all
  have one: "distinct (map k' (f x))"
  proof (cases "f x")
    case Nil
    then show ?thesis by simp
  next
    case (Cons y ys)
    with len have "ys = []" by simp
    with Cons show ?thesis by simp
  qed
  have rest: "distinct (map k' (concat (map f xs)))"
    using dk lens kxs by (rule Cons.IH)
  have disj: "set (map k' (f x)) \<inter> set (map k' (concat (map f xs))) = {}"
  proof (rule ccontr)
    assume "set (map k' (f x)) \<inter> set (map k' (concat (map f xs))) \<noteq> {}"
    then obtain v where v1: "v \<in> set (map k' (f x))" and v2: "v \<in> set (map k' (concat (map f xs)))"
      by blast
    from v1 obtain y where y: "y \<in> set (f x)" "v = k' y" by auto
    from v2 obtain z y' where z: "z \<in> set xs" "y' \<in> set (f z)" "v = k' y'" by auto
    from y kx have "v = k x" by blast
    moreover from z kxs have "v = k z" by blast
    ultimately have "k x \<in> k ` set xs" using z(1) by blast
    with nk show False by blast
  qed
  have "map k' (concat (map f (x # xs))) = map k' (f x) @ map k' (concat (map f xs))"
    by simp
  with one rest disj show ?case by (simp only: distinct_append)
qed

lemma filter_unique_length:
  "distinct (map k ps) \<Longrightarrow> length (filter (\<lambda>p. k p = x) ps) \<le> Suc 0"
proof (induction ps)
  case Nil
  then show ?case by simp
next
  case (Cons p ps)
  show ?case
  proof (cases "k p = x")
    case True
    then have "x \<notin> set (map k ps)" using Cons.prems by auto
    then have "filter (\<lambda>p. k p = x) ps = []" by (auto simp: filter_empty_conv)
    with True show ?thesis by simp
  next
    case False
    with Cons show ?thesis by simp
  qed
qed

lemma list_orders_distinct_ids:
  assumes "pk_ok (conn db)"
  shows "distinct (map od_id (list_orders db))"
proof -
  let ?t = "conn db"
  have dc: "distinct (map cr_id (customers ?t))"
    using assms by (simp add: pk_ok_def strict_sorted_distinct)
  have "distinct (map or_id (orders ?t))"
    using assms by (simp add: pk_ok_def strict_sorted_distinct)
  then have d: "distinct (map or_id (rev (sort_key or_id (orders ?t))))"
    by (simp add: distinct_map)
  show ?thesis
    unfolding list_orders_def Let_def
  proof (rule distinct_concat_at_most_one [OF d])
    show "\<forall>r \<in> set (rev (sort_key or_id (orders ?t))).
            length (map (order_dict_of ?t r)
               (filter (\<lambda>c. cr_id c = or_customer_id r) (customers ?t))) \<le> Suc 0"
      using filter_unique_length [OF dc] by simp
    show "\<forall>r \<in> set (rev (sort_key or_id (orders ?t))).
            \<forall>y \<in> set (map (order_dict_of ?t r)
               (filter (\<lambda>c. cr_id c = or_customer_id r) (customers ?t))). od_id y = or_id r"
      by (auto simp: order_dict_of_def)
  qed
qed

lemma order_to_customer_row:
  assumes "pk_ok (conn db)" and "r \<in> set (list_orders db)"
  shows "order_to_customer (list_orders db) (od_id r) = Some (od_customer_name r)"
proof -
  let ?ps = "rev (map (\<lambda>r. (od_id r, od_customer_name r)) (list_orders db))"
  have "distinct (map fst ?ps)"
    using list_orders_distinct_ids [OF assms(1)] by (simp add: rev_map [symmetric] comp_def)
  moreover have "(od_id r, od_customer_name r) \<in> set ?ps"
    using assms(2) by auto
  ultimately show ?thesis
    unfolding order_to_customer_def by (rule map_of_is_SomeI)
qed

text \<open>The list of (customer name, product id) pairs that the grouping sees.\<close>

lemma named_items_rows:
  assumes "pk_ok (conn db)"
  shows "named_items (list_orders db) (items_frame db (list_orders db)) =
     concat (map (\<lambda>r. map (\<lambda>it. (od_customer_name r, product_id it))
                           (get_order_items db (od_id r))) (list_orders db))"
proof -
  have inner: "concat (map (\<lambda>row. case order_to_customer (list_orders db) (idf_order_id row) of
                          None \<Rightarrow> [] | Some n \<Rightarrow> [(n, idt_product_id row)])
                 (map (\<lambda>it. item_dict.extend (item_to_dict it) \<lparr>idf_order_id = od_id r\<rparr>) its)) =
               map (\<lambda>it. (od_customer_name r, product_id it)) its"
    if "r \<in> set (list_orders db)" for r its
    using order_to_customer_row [OF assms that]
    by (induction its) (simp_all add: item_dict.extend_def item_to_dict_def)
  have gen: "concat (map g (concat (map f xs))) = concat (map (\<lambda>x. concat (map g (f x))) xs)"
    for g :: "'b \<Rightarrow> 'c list" and f :: "'a \<Rightarrow> 'b list" and xs
    by (induction xs) simp_all
  show ?thesis
    unfolding named_items_def items_frame_def gen
    by (rule arg_cong [where f = concat], rule map_cong [OF refl]) (simp only: inner)
qed

lemma named_items_purchased:
  assumes "pk_ok (conn db)"
  shows "(n, p) \<in> set (named_items (list_orders db) (items_frame db (list_orders db))) \<longleftrightarrow>
         p \<in> purchased (conn db) n"
  unfolding named_items_rows [OF assms]
  by (auto simp: list_orders_def order_dict_of_def get_order_items_def purchased_def Let_def) force+

subsection \<open>Grouping\<close>

lemma group_keys_set [simp]: "set (group_keys ks) = set ks"
  by (simp add: group_keys_def)

lemma group_keys_distinct [simp]: "distinct (group_keys ks)"
  by (simp add: group_keys_def)

lemma cust_products_keys [simp]:
  "map fst (cust_products_of named) = group_keys (map fst named)"
  by (simp add: cust_products_of_def comp_def)

lemma map_of_map_key:
  "map_of (map (\<lambda>n. (n, f n)) ks) n = (if n \<in> set ks then Some (f n) else None)"
  by (induction ks) auto

lemma cust_products_lookup:
  "map_of (cust_products_of named) n =
     (if n \<in> fst ` set named then Some {p. (n, p) \<in> set named} else None)"
proof -
  have "set (map snd (filter (\<lambda>e. fst e = n) named)) = {p. (n, p) \<in> set named}"
    by force
  then show ?thesis
    by (simp add: cust_products_of_def map_of_map_key)
qed

subsection \<open>The graph\<close>

lemma add_node_known: "n \<in> set (nodes G) \<Longrightarrow> add_node G n = G"
  by (simp add: add_node_def)

lemma fold_add_node:
  "distinct ks \<Longrightarrow> set ks \<inter> set (nodes G) = {} \<Longrightarrow>
   fold (\<lambda>cust G. add_node G cust) ks G = G\<lparr>nodes := nodes G @ ks\<rparr>"
proof (induction ks arbitrary: G)
  case Nil
  then show ?case by simp
next
  case (Cons k ks)
  have "add_node G k = G\<lparr>nodes := nodes G @ [k]\<rparr>"
    using Cons.prems by (simp add: add_node_def)
  moreover have "set ks \<inter> set (nodes (G\<lparr>nodes := nodes G @ [k]\<rparr>)) = {}"
    using Cons.prems by auto
  ultimately show ?case
    using Cons.IH [of "G\<lparr>nodes := nodes G @ [k]\<rparr>"] Cons.prems by simp
qed

lemma add_edge_known:
  "a \<in> set (nodes G) \<Longrightarrow> b \<in> set (nodes G) \<Longrightarrow>
   add_edge G a b w = G\<lparr>adj := (adj G)((a, b) \<mapsto> w, (b, a) \<mapsto> w)\<rparr>"
  by (simp add: add_edge_def add_node_known Let_def)

text \<open>The weight that the loop body gives to a pair of product sets.\<close>

lemma edges_from_nodes:
  "a \<in> set (nodes G) \<Longrightarrow> fst ` set rest \<subseteq> set (nodes G) \<Longrightarrow>
   nodes (edges_from a pa rest G) = nodes G"
proof (induction rest arbitrary: G)
  case Nil
  then show ?case by simp
next
  case (Cons e rest)
  obtain b pb where e: "e = (b, pb)" by (cases e)
  let ?G = "if pa \<inter> pb \<noteq> {} then add_edge G a b (card (pa \<inter> pb)) else G"
  have n: "nodes ?G = nodes G"
    using Cons.prems e by (simp add: add_edge_known)
  then have "nodes (edges_from a pa rest ?G) = nodes ?G"
    using Cons.prems by (intro Cons.IH) auto
  with n e show ?case by (simp add: Let_def)
qed

lemma edges_from_adj:
  assumes "a \<in> set (nodes G)" and "fst ` set rest \<subseteq> set (nodes G)"
    and "distinct (map fst rest)" and "a \<notin> fst ` set rest"
  shows "adj (edges_from a pa rest G) (x, y) =
     (case (if x = a then map_of rest y else if y = a then map_of rest x else None) of
        None \<Rightarrow> adj G (x, y)
      | Some pb \<Rightarrow> if pa \<inter> pb \<noteq> {} then Some (card (pa \<inter> pb)) else adj G (x, y))"
  using assms
proof (induction rest arbitrary: G)
  case Nil
  then show ?case by simp
next
  case (Cons e rest)
  obtain b pb where e: "e = (b, pb)" by (cases e)
  let ?G = "if pa \<inter> pb \<noteq> {} then add_edge G a b (card (pa \<inter> pb)) else G"
  have n: "nodes ?G = nodes G"
    using Cons.prems e by (simp add: add_edge_known)
  have ab: "a \<noteq> b" using Cons.prems e by auto
  have bnot: "b \<notin> fst ` set rest" using Cons.prems e by auto
  have IH: "adj (edges_from a pa rest ?G) (x, y) =
     (case (if x = a then map_of rest y else if y = a then map_of rest x else None) of
        None \<Rightarrow> adj ?G (x, y)
      | Some pb \<Rightarrow> if pa \<inter> pb \<noteq> {} then Some (card (pa \<inter> pb)) else adj ?G (x, y))"
    using Cons.prems n by (intro Cons.IH) auto
  have G: "adj ?G (x, y) =
      (if pa \<inter> pb \<noteq> {} \<and> ((x = a \<and> y = b) \<or> (x = b \<and> y = a))
       then Some (card (pa \<inter> pb)) else adj G (x, y))"
    using Cons.prems e by (auto simp: add_edge_known)
  have nb: "map_of rest b = None"
    using bnot by (simp add: map_of_eq_None_iff)
  show ?case
    unfolding e edges_from.simps Let_def IH G
    using ab nb by (auto split: option.splits)
qed

lemma all_pairs_nodes:
  "fst ` set cp \<subseteq> set (nodes G) \<Longrightarrow> nodes (all_pairs cp G) = nodes G"
proof (induction cp arbitrary: G)
  case Nil
  then show ?case by simp
next
  case (Cons e cp)
  obtain a pa where e: "e = (a, pa)" by (cases e)
  have n: "nodes (edges_from a pa cp G) = nodes G"
    using Cons.prems e by (intro edges_from_nodes) auto
  then have "nodes (all_pairs cp (edges_from a pa cp G)) = nodes (edges_from a pa cp G)"
    using Cons.prems by (intro Cons.IH) auto
  with n e show ?case by simp
qed

lemma all_pairs_adj:
  assumes "fst ` set cp \<subseteq> set (nodes G)" and "distinct (map fst cp)" and "x \<noteq> y"
  shows "adj (all_pairs cp G) (x, y) =
     (case (map_of cp x, map_of cp y) of
        (Some px, Some py) \<Rightarrow>
           if px \<inter> py \<noteq> {} then Some (card (px \<inter> py)) else adj G (x, y)
      | _ \<Rightarrow> adj G (x, y))"
  using assms
proof (induction cp arbitrary: G)
  case Nil
  then show ?case by simp
next
  case (Cons e cp)
  obtain a pa where e: "e = (a, pa)" by (cases e)
  let ?G = "edges_from a pa cp G"
  have n: "nodes ?G = nodes G"
    using Cons.prems e by (intro edges_from_nodes) auto
  have anot: "a \<notin> fst ` set cp" using Cons.prems e by auto
  have IH: "adj (all_pairs cp ?G) (x, y) =
     (case (map_of cp x, map_of cp y) of
        (Some px, Some py) \<Rightarrow>
           if px \<inter> py \<noteq> {} then Some (card (px \<inter> py)) else adj ?G (x, y)
      | _ \<Rightarrow> adj ?G (x, y))"
    using Cons.prems n by (intro Cons.IH) auto
  have G: "adj ?G (x, y) =
     (case (if x = a then map_of cp y else if y = a then map_of cp x else None) of
        None \<Rightarrow> adj G (x, y)
      | Some pb \<Rightarrow> if pa \<inter> pb \<noteq> {} then Some (card (pa \<inter> pb)) else adj G (x, y))"
    using Cons.prems e anot by (intro edges_from_adj) auto
  have na: "map_of cp a = None"
    using anot by (simp add: map_of_eq_None_iff)
  show ?case
    unfolding e all_pairs.simps IH G
    using \<open>x \<noteq> y\<close> na by (auto split: option.splits simp: Int_commute)
qed

section \<open>The totals of list\_orders\<close>

lemma round2_zero: "round2 0 = 0"
  by (simp add: round2_def fl_def round_half_even_def)

lemma filter_concat_key:
  assumes "distinct (map k xs)" and "x \<in> set xs"
    and "\<forall>z \<in> set xs. \<forall>y \<in> set (f z). k' y = k z"
  shows "filter (\<lambda>y. k' y = k x) (concat (map f xs)) = f x"
  using assms
proof (induction xs)
  case Nil
  then show ?case by simp
next
  case (Cons z zs)
  from Cons.prems(1) have dz: "distinct (map k zs)" and nz: "k z \<notin> k ` set zs"
    by simp_all
  from Cons.prems(3) have kz: "\<forall>y \<in> set (f z). k' y = k z"
    and kzs: "\<forall>z \<in> set zs. \<forall>y \<in> set (f z). k' y = k z"
    by simp_all
  show ?case
  proof (cases "x = z")
    case True
    have here: "filter (\<lambda>y. k' y = k x) (f z) = f z"
      using kz True by (simp add: filter_id_conv)
    have "\<forall>y \<in> set (concat (map f zs)). k' y \<noteq> k x"
    proof
      fix y assume "y \<in> set (concat (map f zs))"
      then obtain w where w: "w \<in> set zs" "y \<in> set (f w)" by auto
      with kzs have "k' y = k w" by blast
      moreover have "k w \<noteq> k z" using w(1) nz by (metis imageI)
      ultimately show "k' y \<noteq> k x" using True by simp
    qed
    then have "filter (\<lambda>y. k' y = k x) (concat (map f zs)) = []"
      by (simp add: filter_empty_conv)
    with here True show ?thesis by simp
  next
    case False
    with Cons.prems(2) have xin: "x \<in> set zs" by simp
    then have "k x \<noteq> k z" using nz by (metis imageI)
    then have "\<forall>y \<in> set (f z). k' y \<noteq> k x" using kz by simp
    then have "filter (\<lambda>y. k' y = k x) (f z) = []"
      by (simp add: filter_empty_conv)
    moreover have "filter (\<lambda>y. k' y = k x) (concat (map f zs)) = f x"
      using dz xin kzs by (rule Cons.IH)
    ultimately show ?thesis by simp
  qed
qed

text \<open>
  In a store whose keys hold, every stored order has exactly one row in
  \<open>list_orders\<close>: the one built from the order and its customer.
\<close>

lemma list_orders_row_of_order:
  assumes "pk_ok (conn db)" and "fk_ok (conn db)" and "r \<in> set (orders (conn db))"
  shows "\<exists>c \<in> set (customers (conn db)). cr_id c = or_customer_id r \<and>
           filter (\<lambda>d. od_id d = or_id r) (list_orders db) = [order_dict_of (conn db) r c]"
proof -
  let ?t = "conn db"
  let ?f = "\<lambda>r. map (order_dict_of ?t r) (filter (\<lambda>c. cr_id c = or_customer_id r) (customers ?t))"
  have dc: "distinct (map cr_id (customers ?t))"
    using assms(1) by (simp add: pk_ok_def strict_sorted_distinct)
  have "distinct (map or_id (orders ?t))"
    using assms(1) by (simp add: pk_ok_def strict_sorted_distinct)
  then have d: "distinct (map or_id (rev (sort_key or_id (orders ?t))))"
    by (simp add: distinct_map)
  have rin: "r \<in> set (rev (sort_key or_id (orders ?t)))"
    using assms(3) by simp
  have keys: "\<forall>z \<in> set (rev (sort_key or_id (orders ?t))). \<forall>y \<in> set (?f z). od_id y = or_id z"
    by (auto simp: order_dict_of_def)
  have rows: "filter (\<lambda>d. od_id d = or_id r) (list_orders db) = ?f r"
    unfolding list_orders_def Let_def using d rin keys by (rule filter_concat_key)
  have "or_customer_id r \<in> set (map cr_id (customers ?t))"
    using assms(2,3) by (auto simp: fk_ok_def list_all_iff)
  then obtain c where c: "c \<in> set (customers ?t)" "cr_id c = or_customer_id r"
    by auto
  then have ne: "filter (\<lambda>c. cr_id c = or_customer_id r) (customers ?t) \<noteq> []"
    by (auto simp: filter_empty_conv)
  have le: "length (filter (\<lambda>c. cr_id c = or_customer_id r) (customers ?t)) \<le> Suc 0"
    using dc by (rule filter_unique_length)
  obtain c' where one: "filter (\<lambda>c. cr_id c = or_customer_id r) (customers ?t) = [c']"
  proof (cases "filter (\<lambda>c. cr_id c = or_customer_id r) (customers ?t)")
    case Nil
    with ne show ?thesis by simp
  next
    case (Cons a as)
    with le have "as = []" by simp
    with Cons that show ?thesis by simp
  qed
  have "c' \<in> set (filter (\<lambda>c. cr_id c = or_customer_id r) (customers ?t))"
    by (simp only: one) simp
  then have c': "c' \<in> set (customers ?t)" "cr_id c' = or_customer_id r"
    by simp_all
  have "filter (\<lambda>d. od_id d = or_id r) (list_orders db) = [order_dict_of ?t r c']"
    by (simp only: rows one) simp
  with c' show ?thesis by blast
qed

text \<open>
  C1 as stated fails: for the stored order of \<open>store_odd_price\<close> (one line, unit price
  0.1875, quantity 1) \<open>list_orders\<close> reports 0.1875, while \<open>Order.total\<close> of the items
  read back by \<open>get_order_items\<close> is the float 0.19.
\<close>

theorem list_orders_total_counterexample:
  "map od_total (list_orders store_odd_price) = [3 / 16] \<and>
   total \<lparr>o_id = Some 1, customer_id = 1, created_at = 1735725600000000,
          items = get_order_items store_odd_price 1\<rparr> = fl (19 / 100) \<and>
   fl (19 / 100) = 3422735716801577 / 18014398509481984"
  by code_simp

text \<open>
  C1, amended. In a store whose primary and foreign keys hold, every stored order has
  exactly one row in \<open>list_orders\<close>. The total of that row is
  \<open>IFNULL(SUM(unit_price * quantity), 0)\<close> over the stored items of the order: the
  SQLite sum of the floating-point products, with no rounding to two decimals, and zero
  for an order with no items. \<open>Order.total\<close> of an order object with the same line data
  is \<open>round(sum(round(unit_price * quantity, 2)), 2)\<close>, a different formula; the two
  values are equal for an order with no items.
\<close>

theorem list_orders_total:
  assumes "pk_ok (conn db)" and "fk_ok (conn db)" and "r \<in> set (orders (conn db))"
  shows "\<exists>d. filter (\<lambda>d. od_id d = or_id r) (list_orders db) = [d] \<and>
           od_customer_id d = or_customer_id r \<and>
           od_total d =
             (if items_of (conn db) (or_id r) = [] then 0
              else sql_sum (map (\<lambda>oi. fmul (ir_unit_price oi) (of_int (ir_quantity oi)))
                                (items_of (conn db) (or_id r)))) \<and>
           (\<forall>ord. map (\<lambda>i. (unit_price i, quantity i)) (items ord) =
                    map (\<lambda>oi. (ir_unit_price oi, ir_quantity oi)) (items_of (conn db) (or_id r))
                  \<longrightarrow>
                  total ord =
                    round2 (py_sum (map (\<lambda>oi. round2 (fmul (ir_unit_price oi) (of_int (ir_quantity oi))))
                                        (items_of (conn db) (or_id r)))) \<and>
                  (items ord = [] \<longrightarrow> total ord = od_total d))"
proof -
  let ?rows = "items_of (conn db) (or_id r)"
  from list_orders_row_of_order [OF assms] obtain c where
    row: "filter (\<lambda>d. od_id d = or_id r) (list_orders db) = [order_dict_of (conn db) r c]"
    by blast
  let ?d = "order_dict_of (conn db) r c"
  have cid: "od_customer_id ?d = or_customer_id r"
    by (simp add: order_dict_of_def)
  have tot: "od_total ?d =
             (if ?rows = [] then 0
              else sql_sum (map (\<lambda>oi. fmul (ir_unit_price oi) (of_int (ir_quantity oi))) ?rows))"
    by (simp add: order_dict_of_def sum_unit_price_quantity_def)
  have obj: "total ord =
                    round2 (py_sum (map (\<lambda>oi. round2 (fmul (ir_unit_price oi) (of_int (ir_quantity oi))))
                                        ?rows)) \<and>
                  (items ord = [] \<longrightarrow> total ord = od_total ?d)"
    if eq: "map (\<lambda>i. (unit_price i, quantity i)) (items ord) =
            map (\<lambda>oi. (ir_unit_price oi, ir_quantity oi)) ?rows" for ord :: order
  proof -
    have "map line_total (items ord) =
          map (\<lambda>(u, q). round2 (fmul u (of_int q))) (map (\<lambda>i. (unit_price i, quantity i)) (items ord))"
      by (simp add: line_total_def comp_def)
    also have "\<dots> = map (\<lambda>(u, q). round2 (fmul u (of_int q)))
                         (map (\<lambda>oi. (ir_unit_price oi, ir_quantity oi)) ?rows)"
      by (simp only: eq)
    also have "\<dots> = map (\<lambda>oi. round2 (fmul (ir_unit_price oi) (of_int (ir_quantity oi)))) ?rows"
      by (simp add: comp_def)
    finally have lines: "map line_total (items ord) =
        map (\<lambda>oi. round2 (fmul (ir_unit_price oi) (of_int (ir_quantity oi)))) ?rows" .
    have t: "total ord = round2 (py_sum (map (\<lambda>oi. round2 (fmul (ir_unit_price oi)
                 (of_int (ir_quantity oi)))) ?rows))"
      by (simp only: total_def lines)
    have "total ord = od_total ?d" if e: "items ord = []"
    proof -
      from eq e have "?rows = []" by simp
      then have "od_total ?d = 0" using tot by simp
      moreover have "total ord = 0"
        using e by (simp add: total_def py_sum_def round2_zero)
      ultimately show ?thesis by simp
    qed
    with t show ?thesis by blast
  qed
  show ?thesis
    using row cid tot obj by blast
qed

theorem list_orders_total_witness:
  "pk_ok (conn store_keyboard) \<and> fk_ok (conn store_keyboard) \<and>
   \<lparr>or_id = 1, or_customer_id = 1, or_created_at = 1735725600\<rparr> \<in> set (orders (conn store_keyboard)) \<and>
   (\<exists>d. filter (\<lambda>d. od_id d = 1) (list_orders store_keyboard) = [d] \<and> od_total d = 50) \<and>
   total order_keyboard = 50"
proof -
  let ?r = "\<lparr>or_id = 1, or_customer_id = 1, or_created_at = 1735725600\<rparr>"
  have pk: "pk_ok (conn store_keyboard)" by code_simp
  have fk: "fk_ok (conn store_keyboard)" by code_simp
  have o: "orders (conn store_keyboard) = [?r]" by code_simp
  then have mem: "?r \<in> set (orders (conn store_keyboard))" by simp
  have rows: "items_of (conn store_keyboard) 1 =
      [\<lparr>ir_id = 1, ir_order_id = 1, ir_product_id = 1, ir_unit_price = 50, ir_quantity = 1\<rparr>]"
    by code_simp
  have s: "sql_sum [fmul 50 1] = 50" by code_simp
  have t: "total order_keyboard = 50" by code_simp
  from list_orders_total [OF pk fk mem] obtain d where
    d: "filter (\<lambda>d. od_id d = or_id ?r) (list_orders store_keyboard) = [d]"
       "od_total d =
             (if items_of (conn store_keyboard) (or_id ?r) = [] then 0
              else sql_sum (map (\<lambda>oi. fmul (ir_unit_price oi) (of_int (ir_quantity oi)))
                                (items_of (conn store_keyboard) (or_id ?r))))"
    by blast
  from d(2) have "od_total d = 50" by (simp add: rows s)
  with d(1) have "\<exists>d. filter (\<lambda>d. od_id d = 1) (list_orders store_keyboard) = [d] \<and> od_total d = 50"
    by auto
  with pk fk mem t show ?thesis by blast
qed

subsection \<open>Counting orders by customer name\<close>

lemma length_filter_concat:
  "length (filter P (concat xss)) = sum_list (map (\<lambda>xs. length (filter P xs)) xss)"
  by (induction xss) simp_all

lemma sum_length_filter_swap:
  "sum_list (map (\<lambda>r. length (filter (\<lambda>c. A r c) cs)) rs) =
   sum_list (map (\<lambda>c. length (filter (\<lambda>r. A r c) rs)) cs)"
proof (induction rs)
  case Nil
  show ?case by (induction cs) simp_all
next
  case (Cons r rs)
  have "sum_list (map (\<lambda>c. length (filter (\<lambda>r. A r c) (r # rs))) cs) =
        length (filter (\<lambda>c. A r c) cs) + sum_list (map (\<lambda>c. length (filter (\<lambda>r. A r c) rs)) cs)"
    by (induction cs) simp_all
  with Cons show ?case by simp
qed

lemma sum_list_filter_if:
  "sum_list (map f (filter P xs)) = sum_list (map (\<lambda>x. if P x then f x else (0::nat)) xs)"
  by (induction xs) simp_all

lemma count_rows_by_name:
  assumes "pk_ok (conn db)"
  shows "length (filter (\<lambda>d. od_customer_name d = n) (list_orders db)) =
         orders_under (conn db) n"
proof -
  let ?t = "conn db"
  let ?A = "\<lambda>r c. cr_id c = or_customer_id r \<and> cr_name c = n"
  have s: "sort_key or_id (orders ?t) = orders ?t"
    using assms by (simp add: pk_ok_def sort_key_strict_sorted)
  have inner: "length (filter (\<lambda>d. od_customer_name d = n)
                 (map (order_dict_of ?t r) (filter (\<lambda>c. cr_id c = or_customer_id r) (customers ?t)))) =
               length (filter (\<lambda>c. ?A r c) (customers ?t))" for r
    by (simp add: filter_map comp_def order_dict_of_def)
  have "length (filter (\<lambda>d. od_customer_name d = n) (list_orders db)) =
        sum_list (map (\<lambda>r. length (filter (\<lambda>c. ?A r c) (customers ?t))) (rev (orders ?t)))"
    by (simp add: list_orders_def Let_def s length_filter_concat comp_def filter_map order_dict_of_def)
  also have "\<dots> = sum_list (map (\<lambda>r. length (filter (\<lambda>c. ?A r c) (customers ?t))) (orders ?t))"
    by (simp add: rev_map [symmetric])
  also have "\<dots> = sum_list (map (\<lambda>c. length (filter (\<lambda>r. ?A r c) (orders ?t))) (customers ?t))"
    by (rule sum_length_filter_swap)
  also have "\<dots> = sum_list (map (\<lambda>c. if cr_name c = n
                        then length (filter (\<lambda>r. or_customer_id r = cr_id c) (orders ?t)) else 0)
                      (customers ?t))"
  proof -
    have e: "length (filter (\<lambda>r. ?A r c) (orders ?t)) =
          (if cr_name c = n
           then length (filter (\<lambda>r. or_customer_id r = cr_id c) (orders ?t)) else 0)" for c
    proof (cases "cr_name c = n")
      case True
      have "filter (\<lambda>r. cr_id c = or_customer_id r) (orders ?t) =
            filter (\<lambda>r. or_customer_id r = cr_id c) (orders ?t)"
        by (rule filter_cong) auto
      with True show ?thesis by simp
    next
      case False
      then show ?thesis by simp
    qed
    show ?thesis by (simp only: e)
  qed
  also have "\<dots> = orders_under ?t n"
    by (simp add: orders_under_def orders_of_def sum_list_filter_if)
  finally show ?thesis .
qed

lemma groupby_count_keys: "map fst (groupby_count odf) = group_keys (map od_customer_name odf)"
  by (simp add: groupby_count_def comp_def)

lemma groupby_count_set:
  "set (groupby_count odf) =
     {(m, k). k = length (filter (\<lambda>d. od_customer_name d = m) odf) \<and> 0 < k}"
proof -
  have "m \<in> od_customer_name ` set odf \<longleftrightarrow> 0 < length (filter (\<lambda>d. od_customer_name d = m) odf)" for m
    by (auto simp: filter_empty_conv)
  then show ?thesis
    by (auto simp: groupby_count_def)
qed

lemma by_count_desc_sorts: "sorts_descending by_count_desc"
proof -
  have "sorted_wrt (\<lambda>a b. snd b \<le> snd a) (rev (sort_key snd g))" for g :: "(string \<times> nat) list"
  proof -
    have "sorted (map snd (sort_key snd g))" by simp
    then have "sorted_wrt (\<lambda>a b. snd a \<le> snd b) (sort_key snd g)"
      by (simp add: sorted_map)
    then show ?thesis
      by (simp add: sorted_wrt_rev)
  qed
  then show ?thesis
    by (simp add: sorts_descending_def by_count_desc_def)
qed

subsection \<open>The graph in terms of the stored tables\<close>

lemma graph_core:
  assumes pk: "pk_ok (conn db)" and rd: "readable db"
  shows "\<exists>G. customer_relationship_graph db = Inr G \<and>
     (G = None \<longrightarrow> (\<forall>n. purchased (conn db) n = {})) \<and>
     (\<forall>g. G = Some g \<longrightarrow>
        distinct (nodes g) \<and>
        set (nodes g) = {n. purchased (conn db) n \<noteq> {}} \<and>
        (\<forall>x y. x \<noteq> y \<longrightarrow>
           adj g (x, y) =
             (if purchased (conn db) x \<inter> purchased (conn db) y = {} then None
              else Some (card (purchased (conn db) x \<inter> purchased (conn db) y)))))"
proof -
  let ?t = "conn db"
  let ?named = "named_items (list_orders db) (items_frame db (list_orders db))"
  let ?cp = "cust_products_of ?named"
  from build_dataframes_readable [OF rd] obtain cs ps where
    bd: "build_dataframes db = Inr (cs, ps, list_orders db, items_frame db (list_orders db))"
    by blast
  have P: "(n, p) \<in> set ?named \<longleftrightarrow> p \<in> purchased ?t n" for n p
    by (rule named_items_purchased [OF pk])
  have keyset: "n \<in> fst ` set ?named \<longleftrightarrow> purchased ?t n \<noteq> {}" for n
  proof
    assume "n \<in> fst ` set ?named"
    then obtain p where "(n, p) \<in> set ?named" by force
    then show "purchased ?t n \<noteq> {}" using P by blast
  next
    assume "purchased ?t n \<noteq> {}"
    then obtain p where "p \<in> purchased ?t n" by blast
    then have "(n, p) \<in> set ?named" using P by blast
    then show "n \<in> fst ` set ?named" by force
  qed
  have vals: "{p. (n, p) \<in> set ?named} = purchased ?t n" for n
    using P by blast
  have look: "map_of ?cp n = (if purchased ?t n \<noteq> {} then Some (purchased ?t n) else None)" for n
    by (simp only: cust_products_lookup keyset vals)
  show ?thesis
  proof (cases "list_orders db = [] \<or> items_frame db (list_orders db) = []")
    case True
    then have res: "customer_relationship_graph db = Inr None"
      by (simp add: customer_relationship_graph_def bd ebind_def)
    from True have "?named = []"
      by (auto simp: named_items_def items_frame_def)
    then have "purchased ?t n = {}" for n
      using P [of n] by auto
    with res show ?thesis by simp
  next
    case False
    let ?G0 = "fold (\<lambda>cust G. add_node G cust) (map fst ?cp) empty_graph"
    let ?g = "all_pairs ?cp ?G0"
    have res: "customer_relationship_graph db = Inr (Some ?g)"
      using False by (simp add: customer_relationship_graph_def bd ebind_def Let_def)
    have dk: "distinct (map fst ?cp)" by simp
    have G0: "?G0 = empty_graph\<lparr>nodes := nodes empty_graph @ map fst ?cp\<rparr>"
      by (rule fold_add_node [OF dk]) (simp add: empty_graph_def)
    have n0: "nodes ?G0 = map fst ?cp"
      by (simp only: G0) (simp add: empty_graph_def)
    have a0: "adj ?G0 e = None" for e
      by (simp only: G0) (simp add: empty_graph_def)
    have sub: "fst ` set ?cp \<subseteq> set (nodes ?G0)"
      by (simp only: n0 set_map subset_refl)
    have nd: "nodes ?g = group_keys (map fst ?named)"
      using all_pairs_nodes [OF sub] n0 by simp
    have d: "distinct (nodes ?g)"
      by (simp only: nd) simp
    have "set (nodes ?g) = set (group_keys (map fst ?named))"
      by (simp only: nd)
    also have "\<dots> = fst ` set ?named"
      by simp
    also have "\<dots> = {n. purchased ?t n \<noteq> {}}"
      using keyset by blast
    finally have s: "set (nodes ?g) = {n. purchased ?t n \<noteq> {}}" .
    have w: "adj ?g (x, y) =
             (if purchased ?t x \<inter> purchased ?t y = {} then None
              else Some (card (purchased ?t x \<inter> purchased ?t y)))" if "x \<noteq> y" for x y
    proof -
      have "adj ?g (x, y) =
         (case (map_of ?cp x, map_of ?cp y) of
            (Some px, Some py) \<Rightarrow>
               if px \<inter> py \<noteq> {} then Some (card (px \<inter> py)) else adj ?G0 (x, y)
          | _ \<Rightarrow> adj ?G0 (x, y))"
        using sub dk that by (rule all_pairs_adj)
      then show ?thesis
        by (simp only: look a0) (auto split: option.splits)
    qed
    from res d s w show ?thesis by simp
  qed
qed


lemma purchased_union:
  "purchased t n = (\<Union>c \<in> {c \<in> set (customers t). cr_name c = n}. purchased_by t (cr_id c))"
  by (auto simp: purchased_def purchased_by_def)

lemma sum_list_two_members:
  fixes f :: "'a \<Rightarrow> nat"
  assumes "distinct xs" and "a \<in> set xs" and "b \<in> set xs" and "a \<noteq> b"
  shows "f a + f b \<le> sum_list (map f xs)"
proof -
  have "sum_list (map f xs) = sum f (set xs)"
    using assms(1) by (simp add: sum_list_distinct_conv_sum_set)
  moreover have "sum f {a, b} \<le> sum f (set xs)"
    using assms(2,3) by (intro sum_mono2) auto
  moreover have "sum f {a, b} = f a + f b"
    using assms(4) by simp
  ultimately show ?thesis by simp
qed

lemma orders_under_two:
  assumes "pk_ok t" and "c1 \<in> set (customers t)" and "c2 \<in> set (customers t)"
    and "cr_id c1 \<noteq> cr_id c2" and "cr_name c1 = n" and "cr_name c2 = n"
  shows "length (orders_of t (cr_id c1)) + length (orders_of t (cr_id c2)) \<le> orders_under t n"
proof -
  have "distinct (map cr_id (customers t))"
    using assms(1) by (simp add: pk_ok_def strict_sorted_distinct)
  then have "distinct (customers t)" by (simp add: distinct_map)
  then have d: "distinct (filter (\<lambda>c. cr_name c = n) (customers t))" by simp
  have m: "c1 \<in> set (filter (\<lambda>c. cr_name c = n) (customers t))"
          "c2 \<in> set (filter (\<lambda>c. cr_name c = n) (customers t))"
    using assms by simp_all
  have ne: "c1 \<noteq> c2" using assms(4) by auto
  show ?thesis
    unfolding orders_under_def by (rule sum_list_two_members [OF d m ne])
qed

subsection \<open>The claims about the relationship graph\<close>








subsection \<open>Customers are keyed by name\<close>

lemma count_by_name_list:
  "length (filter (\<lambda>d. od_customer_name d = n) odf) =
   length (filter (\<lambda>x. x = n) (map od_customer_name odf))"
  by (induction odf) simp_all

lemma distinct_fst_permuted:
  assumes "mset ys = mset xs" and "distinct (map fst xs)"
  shows "distinct (map fst ys)"
proof -
  have "mset (map fst ys) = mset (map fst xs)"
    using assms(1) by simp
  then have "distinct (map fst ys) = distinct (map fst xs)"
    by (rule mset_eq_imp_distinct_iff)
  with assms(2) show ?thesis by simp
qed

text \<open>
  C10. Let two customer rows with different identifiers carry the same name \<open>n\<close>.
  The ranking is the first five entries of the descending sort of one entry per name,
  whose count is the number of orders of all customers with that name; for \<open>n\<close> this
  is at least the orders of the two customers together. The graph has at most one node
  \<open>n\<close>, present when some customer called \<open>n\<close> bought something, and its edges
  are computed from the union of the purchases of all customers called \<open>n\<close>, which
  contains the purchases of both.
\<close>

theorem same_name_customers_merged:
  assumes "pk_ok (conn db)" and "readable db" and "sorts_descending sort_values"
    and "c1 \<in> set (customers (conn db))" and "c2 \<in> set (customers (conn db))"
    and "cr_id c1 \<noteq> cr_id c2" and "cr_name c1 = n" and "cr_name c2 = n"
  shows "\<exists>ranking G.
     top_customers_by_orders sort_values db = Inr ranking \<and>
     customer_relationship_graph db = Inr G \<and>
     (ranking = None \<longrightarrow> (\<forall>m. orders_under (conn db) m = 0)) \<and>
     (\<forall>r. ranking = Some r \<longrightarrow>
        distinct (map fst r) \<and>
        (\<exists>g. r = take 5 (sort_values g) \<and> distinct (map fst g) \<and>
             set g = {(m, k). k = orders_under (conn db) m \<and> 0 < k})) \<and>
     length (orders_of (conn db) (cr_id c1)) + length (orders_of (conn db) (cr_id c2))
       \<le> orders_under (conn db) n \<and>
     (G = None \<longrightarrow> (\<forall>m. purchased (conn db) m = {})) \<and>
     (\<forall>g. G = Some g \<longrightarrow>
        distinct (nodes g) \<and>
        (n \<in> set (nodes g) \<longleftrightarrow> purchased (conn db) n \<noteq> {}) \<and>
        (\<forall>m. m \<noteq> n \<longrightarrow>
           adj g (n, m) =
             (if purchased (conn db) n \<inter> purchased (conn db) m = {} then None
              else Some (card (purchased (conn db) n \<inter> purchased (conn db) m))))) \<and>
     purchased (conn db) n =
       (\<Union>c \<in> {c \<in> set (customers (conn db)). cr_name c = n}. purchased_by (conn db) (cr_id c)) \<and>
     purchased_by (conn db) (cr_id c1) \<union> purchased_by (conn db) (cr_id c2)
       \<subseteq> purchased (conn db) n"
proof -
  let ?t = "conn db"
  from build_dataframes_readable [OF assms(2)] obtain cs ps where
    bd: "build_dataframes db = Inr (cs, ps, list_orders db, items_frame db (list_orders db))"
    by blast
  let ?g = "groupby_count (list_orders db)"
  let ?ranking = "if list_orders db = [] then None else Some (take 5 (sort_values ?g))"
  have top: "top_customers_by_orders sort_values db = Inr ?ranking"
    by (simp add: top_customers_by_orders_def bd ebind_def)
  have cnt: "length (filter (\<lambda>d. od_customer_name d = m) (list_orders db)) = orders_under ?t m" for m
    by (rule count_rows_by_name [OF assms(1)])
  have none_r: "?ranking = None \<longrightarrow> (\<forall>m. orders_under ?t m = 0)"
  proof
    assume "?ranking = None"
    then have e: "list_orders db = []" by (simp split: if_splits)
    show "\<forall>m. orders_under ?t m = 0"
    proof
      fix m
      have "orders_under ?t m = length (filter (\<lambda>d. od_customer_name d = m) (list_orders db))"
        by (simp only: cnt)
      then show "orders_under ?t m = 0" by (simp add: e)
    qed
  qed
  have dg: "distinct (map fst ?g)"
    by (simp add: groupby_count_keys)
  have sg: "set ?g = {(m, k). k = orders_under ?t m \<and> 0 < k}"
    by (simp only: groupby_count_set cnt)
  have perm: "mset (sort_values ?g) = mset ?g"
    using assms(3) by (simp add: sorts_descending_def)
  have "distinct (map fst (sort_values ?g))"
    using perm dg by (rule distinct_fst_permuted)
  then have dr: "distinct (map fst (take 5 (sort_values ?g)))"
    by (simp add: take_map [symmetric] distinct_take)
  have some_r: "\<forall>r. ?ranking = Some r \<longrightarrow>
        distinct (map fst r) \<and>
        (\<exists>g. r = take 5 (sort_values g) \<and> distinct (map fst g) \<and>
             set g = {(m, k). k = orders_under ?t m \<and> 0 < k})"
  proof (intro allI impI)
    fix r assume "?ranking = Some r"
    then have r: "r = take 5 (sort_values ?g)" by (simp split: if_splits)
    show "distinct (map fst r) \<and>
        (\<exists>g. r = take 5 (sort_values g) \<and> distinct (map fst g) \<and>
             set g = {(m, k). k = orders_under ?t m \<and> 0 < k})"
      using r dr dg sg by blast
  qed
  have two: "length (orders_of ?t (cr_id c1)) + length (orders_of ?t (cr_id c2)) \<le> orders_under ?t n"
    using assms(1,4-8) by (rule orders_under_two)
  from graph_core [OF assms(1,2)] obtain G where
    res: "customer_relationship_graph db = Inr G"
    and none: "G = None \<longrightarrow> (\<forall>m. purchased ?t m = {})"
    and some: "\<forall>g. G = Some g \<longrightarrow>
        distinct (nodes g) \<and>
        set (nodes g) = {n. purchased ?t n \<noteq> {}} \<and>
        (\<forall>x y. x \<noteq> y \<longrightarrow>
           adj g (x, y) =
             (if purchased ?t x \<inter> purchased ?t y = {} then None
              else Some (card (purchased ?t x \<inter> purchased ?t y))))"
    by blast
  have some': "\<forall>g. G = Some g \<longrightarrow>
        distinct (nodes g) \<and>
        (n \<in> set (nodes g) \<longleftrightarrow> purchased ?t n \<noteq> {}) \<and>
        (\<forall>m. m \<noteq> n \<longrightarrow>
           adj g (n, m) =
             (if purchased ?t n \<inter> purchased ?t m = {} then None
              else Some (card (purchased ?t n \<inter> purchased ?t m))))"
  proof (intro allI impI)
    fix g assume "G = Some g"
    with some have d: "distinct (nodes g)"
      and s: "set (nodes g) = {n. purchased ?t n \<noteq> {}}"
      and w: "\<And>x y. x \<noteq> y \<Longrightarrow> adj g (x, y) =
             (if purchased ?t x \<inter> purchased ?t y = {} then None
              else Some (card (purchased ?t x \<inter> purchased ?t y)))"
      by blast+
    have "n \<in> set (nodes g) \<longleftrightarrow> purchased ?t n \<noteq> {}"
      by (simp only: s) simp
    moreover have "\<forall>m. m \<noteq> n \<longrightarrow>
           adj g (n, m) =
             (if purchased ?t n \<inter> purchased ?t m = {} then None
              else Some (card (purchased ?t n \<inter> purchased ?t m)))"
    proof (intro allI impI)
      fix m :: string assume "m \<noteq> n"
      then have "n \<noteq> m" by simp
      then show "adj g (n, m) =
             (if purchased ?t n \<inter> purchased ?t m = {} then None
              else Some (card (purchased ?t n \<inter> purchased ?t m)))"
        by (rule w)
    qed
    ultimately show "distinct (nodes g) \<and>
        (n \<in> set (nodes g) \<longleftrightarrow> purchased ?t n \<noteq> {}) \<and>
        (\<forall>m. m \<noteq> n \<longrightarrow>
           adj g (n, m) =
             (if purchased ?t n \<inter> purchased ?t m = {} then None
              else Some (card (purchased ?t n \<inter> purchased ?t m))))"
      using d by blast
  qed
  have un: "purchased ?t n =
       (\<Union>c \<in> {c \<in> set (customers ?t). cr_name c = n}. purchased_by ?t (cr_id c))"
    by (rule purchased_union)
  have sub: "purchased_by ?t (cr_id c1) \<union> purchased_by ?t (cr_id c2) \<subseteq> purchased ?t n"
    unfolding un using assms(4,5,7,8) by blast
  show ?thesis
  proof (intro exI conjI)
    show "top_customers_by_orders sort_values db = Inr ?ranking" by (rule top)
    show "customer_relationship_graph db = Inr G" by (rule res)
    show "?ranking = None \<longrightarrow> (\<forall>m. orders_under ?t m = 0)" by (rule none_r)
    show "\<forall>r. ?ranking = Some r \<longrightarrow>
        distinct (map fst r) \<and>
        (\<exists>g. r = take 5 (sort_values g) \<and> distinct (map fst g) \<and>
             set g = {(m, k). k = orders_under ?t m \<and> 0 < k})" by (rule some_r)
    show "length (orders_of ?t (cr_id c1)) + length (orders_of ?t (cr_id c2)) \<le> orders_under ?t n"
      by (rule two)
    show "G = None \<longrightarrow> (\<forall>m. purchased ?t m = {})" by (rule none)
    show "\<forall>g. G = Some g \<longrightarrow>
        distinct (nodes g) \<and>
        (n \<in> set (nodes g) \<longleftrightarrow> purchased ?t n \<noteq> {}) \<and>
        (\<forall>m. m \<noteq> n \<longrightarrow>
           adj g (n, m) =
             (if purchased ?t n \<inter> purchased ?t m = {} then None
              else Some (card (purchased ?t n \<inter> purchased ?t m))))" by (rule some')
    show "purchased ?t n =
       (\<Union>c \<in> {c \<in> set (customers ?t). cr_name c = n}. purchased_by ?t (cr_id c))" by (rule un)
    show "purchased_by ?t (cr_id c1) \<union> purchased_by ?t (cr_id c2) \<subseteq> purchased ?t n"
      by (rule sub)
  qed
qed

lemma orders_under_names:
  "0 < orders_under t m \<Longrightarrow> m \<in> set (map cr_name (customers t))"
proof (rule ccontr)
  assume pos: "0 < orders_under t m" and "m \<notin> set (map cr_name (customers t))"
  then have "filter (\<lambda>c. cr_name c = m) (customers t) = []"
    by (auto simp: filter_empty_conv)
  then have "orders_under t m = 0" by (simp add: orders_under_def)
  with pos show False by simp
qed

theorem same_name_customers_merged_witness:
  "pk_ok (conn store_two_anns) \<and> readable store_two_anns \<and> sorts_descending by_count_desc \<and>
   \<lparr>cr_id = 1, cr_name = ''Ann'', cr_email = Some [], cr_phone = Some []\<rparr>
      \<in> set (customers (conn store_two_anns)) \<and>
   \<lparr>cr_id = 2, cr_name = ''Ann'', cr_email = Some [], cr_phone = Some []\<rparr>
      \<in> set (customers (conn store_two_anns)) \<and>
   length (orders_of (conn store_two_anns) 1) = 1 \<and>
   length (orders_of (conn store_two_anns) 2) = 2 \<and>
   orders_under (conn store_two_anns) ''Ann'' = 3 \<and>
   purchased_by (conn store_two_anns) 1 = {1, 2} \<and>
   purchased_by (conn store_two_anns) 2 = {3} \<and>
   purchased (conn store_two_anns) ''Ann'' = {1, 2, 3} \<and>
   purchased (conn store_two_anns) ''Bo'' = {2, 3} \<and>
   (\<exists>r g. top_customers_by_orders by_count_desc store_two_anns = Inr (Some r) \<and>
          customer_relationship_graph store_two_anns = Inr (Some g) \<and>
          (''Ann'', 3) \<in> set r \<and> distinct (map fst r) \<and>
          ''Ann'' \<in> set (nodes g) \<and> distinct (nodes g) \<and>
          adj g (''Ann'', ''Bo'') = Some 2)"
proof -
  let ?t = "conn store_two_anns"
  let ?c1 = "\<lparr>cr_id = 1, cr_name = ''Ann'', cr_email = Some [], cr_phone = Some []\<rparr>"
  let ?c2 = "\<lparr>cr_id = 2, cr_name = ''Ann'', cr_email = Some [], cr_phone = Some []\<rparr>"
  have pk: "pk_ok ?t" by code_simp
  have rd: "readable store_two_anns" by code_simp
  have sd: "sorts_descending by_count_desc" by (rule by_count_desc_sorts)
  have cust: "customers ?t = [?c1, ?c2,
      \<lparr>cr_id = 3, cr_name = ''Bo'', cr_email = Some [], cr_phone = Some []\<rparr>]"
    by code_simp
  have m1: "?c1 \<in> set (customers ?t)" by (simp only: cust) simp
  have m2: "?c2 \<in> set (customers ?t)" by (simp only: cust) simp
  have o1: "length (orders_of ?t 1) = 1" by code_simp
  have o2: "length (orders_of ?t 2) = 2" by code_simp
  have ou: "orders_under ?t ''Ann'' = 3" by code_simp
  have ob: "orders_under ?t ''Bo'' = 1" by code_simp
  have b1: "purchased_by ?t 1 = {1, 2}" by code_simp
  have b2: "purchased_by ?t 2 = {3}" by code_simp
  have pa: "purchased ?t ''Ann'' = {1, 2, 3}" by code_simp
  have pb: "purchased ?t ''Bo'' = {2, 3}" by code_simp
  have ids: "cr_id ?c1 \<noteq> cr_id ?c2" by simp
  from same_name_customers_merged [OF pk rd sd m1 m2 ids, of "''Ann''"] obtain ranking G where
    top: "top_customers_by_orders by_count_desc store_two_anns = Inr ranking"
    and res: "customer_relationship_graph store_two_anns = Inr G"
    and rnone: "ranking = None \<longrightarrow> (\<forall>m. orders_under ?t m = 0)"
    and rsome: "\<forall>r. ranking = Some r \<longrightarrow>
        distinct (map fst r) \<and>
        (\<exists>g. r = take 5 (by_count_desc g) \<and> distinct (map fst g) \<and>
             set g = {(m, k). k = orders_under ?t m \<and> 0 < k})"
    and gnone: "G = None \<longrightarrow> (\<forall>m. purchased ?t m = {})"
    and gsome: "\<forall>g. G = Some g \<longrightarrow>
        distinct (nodes g) \<and>
        (''Ann'' \<in> set (nodes g) \<longleftrightarrow> purchased ?t ''Ann'' \<noteq> {}) \<and>
        (\<forall>m. m \<noteq> ''Ann'' \<longrightarrow>
           adj g (''Ann'', m) =
             (if purchased ?t ''Ann'' \<inter> purchased ?t m = {} then None
              else Some (card (purchased ?t ''Ann'' \<inter> purchased ?t m))))"
    by auto
  from rnone ou obtain r where r: "ranking = Some r" by (cases ranking) auto
  with rsome obtain g' where dr: "distinct (map fst r)"
    and rg: "r = take 5 (by_count_desc g')" and dg: "distinct (map fst g')"
    and sg: "set g' = {(m, k). k = orders_under ?t m \<and> 0 < k}"
    by blast
  have "set (map fst g') \<subseteq> {''Ann'', ''Bo''}"
  proof
    fix m assume "m \<in> set (map fst g')"
    then obtain k where "(m, k) \<in> set g'" by auto
    with sg have "0 < orders_under ?t m" by simp
    then have "m \<in> set (map cr_name (customers ?t))" by (rule orders_under_names)
    then show "m \<in> {''Ann'', ''Bo''}" by (simp only: cust) auto
  qed
  then have "card (set (map fst g')) \<le> card {''Ann'', ''Bo''}"
    by (intro card_mono) simp_all
  moreover have "card (set (map fst g')) = length (map fst g')"
    using dg by (rule distinct_card)
  ultimately have "length (map fst g') \<le> 2"
    by simp
  then have "take 5 (by_count_desc g') = by_count_desc g'"
    by (simp add: by_count_desc_def)
  with rg have "set r = set g'" by (simp add: by_count_desc_def)
  with sg ou have inr: "(''Ann'', 3) \<in> set r" by simp
  from gnone pa obtain g where g: "G = Some g" by (cases G) auto
  with gsome have dn: "distinct (nodes g)"
    and an: "''Ann'' \<in> set (nodes g) \<longleftrightarrow> purchased ?t ''Ann'' \<noteq> {}"
    and w: "\<And>m. m \<noteq> ''Ann'' \<Longrightarrow> adj g (''Ann'', m) =
             (if purchased ?t ''Ann'' \<inter> purchased ?t m = {} then None
              else Some (card (purchased ?t ''Ann'' \<inter> purchased ?t m)))"
    by blast+
  have ann: "''Ann'' \<in> set (nodes g)" using an pa by simp
  have e: "adj g (''Ann'', ''Bo'') = Some 2"
    using w [of "''Bo''"] by (simp add: pa pb)
  from top r res g inr dr ann dn e have
    "\<exists>r g. top_customers_by_orders by_count_desc store_two_anns = Inr (Some r) \<and>
          customer_relationship_graph store_two_anns = Inr (Some g) \<and>
          (''Ann'', 3) \<in> set r \<and> distinct (map fst r) \<and>
          ''Ann'' \<in> set (nodes g) \<and> distinct (nodes g) \<and>
          adj g (''Ann'', ''Bo'') = Some 2"
    by blast
  with pk rd sd m1 m2 o1 o2 ou b1 b2 pa pb show ?thesis by blast
qed

end
